theory Spec2Isabelle
  imports
    Main
    "HOL-Library.Word"
    "HOL-Library.AList"
    "HOL-Library.List_Lexorder"
    "HOL-Library.Char_ord"
begin

unbundle bit_operations_syntax

section \<open>Egress gateway manager: data model\<close>

text \<open>
  The manager of package \<open>egressgateway\<close> keeps three caches (policies, endpoints, nodes)
  and reconciles them against the kernel policy map and the host's ip rules and routes.

  Conventions of the embedding.
  \<^item> A \<open>net.IP\<close> is an IPv4 address, a 32-bit word. \<open>IP.Equal\<close> is equality, and
    \<open>IP.String()\<close> is injective on addresses, so a Go map keyed by the string of an
    address is a map keyed by the address.
  \<^item> A Go map that the code ranges over is an association list, changed with
    \<open>AList.update\<close> and \<open>AList.delete\<close>; the order of the list is the order in which one
    \<open>range\<close> visits the entries, which Go leaves open. A Go map that is only looked up is
    a HOL map.
  \<^item> \<open>*PolicyConfig\<close> is an address into the store \<open>policyStore\<close> of the manager:
    \<open>policyConfigs\<close> and \<open>policyConfigsBySourceIP\<close> hold addresses, so that a write
    through one is seen through the other, as in the source.
  \<^item> Every call to an external collaborator (policy map, netlink, trigger, work queue) is
    appended to \<open>calls\<close>, the trace of the manager, whether it succeeds or not.
\<close>

type_synonym ipv4 = "32 word"

record ipnet =
  IP :: ipv4
  Mask :: nat

type_synonym labels = "(string \<times> string) list"

text \<open>\<open>types.NamespacedName\<close>: namespace and name.\<close>

type_synonym endpointID = "string \<times> string"
type_synonym policyID = "string \<times> string"

definition GatewayNotFoundIPv4 :: ipv4 where
  "GatewayNotFoundIPv4 = 0"

definition ExcludedCIDRIPv4 :: ipv4 where
  "ExcludedCIDRIPv4 = 1"

type_synonym eventType = int

definition eventNone :: eventType where "eventNone = 1"
definition eventK8sSyncDone :: eventType where "eventK8sSyncDone = 2"
definition eventAddPolicy :: eventType where "eventAddPolicy = 4"
definition eventDeletePolicy :: eventType where "eventDeletePolicy = 8"
definition eventUpdateNode :: eventType where "eventUpdateNode = 16"
definition eventDeleteNode :: eventType where "eventDeleteNode = 32"
definition eventUpdateEndpoint :: eventType where "eventUpdateEndpoint = 64"
definition eventDeleteEndpoint :: eventType where "eventDeleteEndpoint = 128"

text \<open>
  \<open>k8sTypes.CiliumEndpoint\<close>, as far as the manager reads it: name, namespace, the
  identity and the IPv4 addresses of its networking status. The \<open>Identity\<close> field is a
  pointer to a struct with the numeric \<open>ID\<close>: \<open>None\<close> is \<open>nil\<close>.
\<close>

record EndpointIdentity =
  ID :: int

record CiliumEndpoint =
  ep_Name :: string
  ep_Namespace :: string
  Identity :: "EndpointIdentity option"
  Addressing :: "ipv4 list"

text \<open>The \<open>endpoint\<close> field is a pointer: \<open>None\<close> is \<open>nil\<close>.\<close>

record endpointEvent =
  eventType :: eventType
  endpoint :: "CiliumEndpoint option"

record endpointMetadata =
  ep_labels :: labels
  endpoint_id :: endpointID
  ips :: "ipv4 list"

record Node =
  Name :: string
  NodeIPs :: "ipv4 list"

record gatewayConfig =
  ifaceIndex :: int
  egressIP :: ipnet
  gatewayIP :: ipv4
  localNodeConfiguredAsGateway :: bool

text \<open>
  \<open>PolicyConfig\<close>. The selectors are opaque predicates on endpoints, and the policy's
  gateway specification \<open>policyGwConfig\<close> is read only by \<open>regenerateGatewayConfig\<close>,
  which resolves it against the sorted nodes: it is kept as that function of the nodes.
\<close>

record PolicyConfig =
  policy_id :: policyID
  endpointSelectors :: "endpointMetadata \<Rightarrow> bool"
  dstCIDRs :: "ipnet list"
  excludedCIDRs :: "ipnet list"
  policyGwConfig :: "Node list \<Rightarrow> gatewayConfig"
  matchedEndpoints :: "endpointMetadata list"
  gatewayConfig :: gatewayConfig

text \<open>Keys and values of the policy map (package \<open>egressmap\<close>).\<close>

record EgressPolicyKey4 =
  SourceIP :: ipv4
  DestCIDR :: ipnet

record EgressPolicyVal4 =
  EgressIP :: ipv4
  GatewayIP :: ipv4

text \<open>\<open>netlink.Rule\<close> and \<open>netlink.Route\<close>, as far as the manager reads them.\<close>

record ipRule =
  Src :: ipnet
  Dst :: ipnet
  rule_Table :: int

record ipRoute =
  LinkIndex :: int
  route_Table :: int

type_synonym addr = nat

datatype call =
    MapUpdate EgressPolicyKey4 EgressPolicyVal4
  | MapDelete EgressPolicyKey4
  | MapIterate
  | RuleList
  | RuleAdd ipRule
  | RuleDel ipRule
  | RouteList
  | RouteAdd ipnet int
  | RouteDel ipRoute
  | TriggerWithReason string
  | QueueAdd endpointID
  | QueueAddRateLimited endpointID
  | QueueForget endpointID
  | QueueDone endpointID

text \<open>
  The manager. The last four fields are the world it acts on: the content of the policy
  map behind \<open>policyMap\<close>, the egress gateway ip rules and the IPv4 routes of the host, and
  the trace of calls.
\<close>

record Manager =
  cacheStatus :: bool
  nodeDataStore :: "(string \<times> Node) list"
  nodes :: "Node list"
  policyStore :: "addr \<Rightarrow> PolicyConfig"
  nextAddr :: addr
  policyConfigs :: "(policyID \<times> addr) list"
  policyConfigsBySourceIP :: "ipv4 \<rightharpoonup> addr list"
  epDataStore :: "(endpointID \<times> endpointMetadata) list"
  pendingEndpointEvents :: "endpointID \<rightharpoonup> endpointEvent"
  installRoutes :: bool
  eventsBitmap :: eventType
  policyMap :: "(EgressPolicyKey4 \<times> EgressPolicyVal4) list"
  hostRules :: "ipRule list"
  hostRoutes :: "ipRoute list"
  calls :: "call list"

text \<open>
  The collaborators whose code is outside the package, as parameters: the identity
  allocator, the outcome of each write, and the helpers of the netlink layer.
\<close>

record env =
  WaitForInitialGlobalIdentities_err :: bool
  LookupIdentityByID :: "int \<Rightarrow> labels option"
  getEndpointMetadata_err :: "CiliumEndpoint \<Rightarrow> bool"
  Update_err :: "EgressPolicyKey4 \<Rightarrow> EgressPolicyVal4 \<Rightarrow> bool"
  Delete_err :: "EgressPolicyKey4 \<Rightarrow> bool"
  RuleList_err :: bool
  RuleAdd_err :: "ipRule \<Rightarrow> bool"
  RuleDel_err :: "ipRule \<Rightarrow> bool"
  RouteList_err :: bool
  RouteAdd_err :: "ipnet \<Rightarrow> int \<Rightarrow> bool"
  RouteDel_err :: "ipRoute \<Rightarrow> bool"
  egressGatewayRoutingTableIdx :: "int \<Rightarrow> int"
  removeCIDRs :: "ipnet list \<Rightarrow> ipnet list \<Rightarrow> ipnet list"
  egressIpRoutes :: "ipnet \<Rightarrow> int \<Rightarrow> ipRoute list"

text \<open>
  A nil pointer dereference is a panic; the other errors are the Go \<open>error\<close> values the
  manager gets back and logs.
\<close>

datatype error =
    NilPointerDereference
  | WaitForInitialGlobalIdentitiesFailed
  | IdentityNotFound int
  | InvalidEndpointMetadata

section \<open>Events bitmap, trace\<close>

definition setEventBitmap :: "eventType list \<Rightarrow> Manager \<Rightarrow> Manager" where
  "setEventBitmap events m = m\<lparr>eventsBitmap := fold (\<lambda>e b. b OR e) events (eventsBitmap m)\<rparr>"

definition eventBitmapIsSet :: "Manager \<Rightarrow> eventType list \<Rightarrow> bool" where
  "eventBitmapIsSet m events = list_ex (\<lambda>e. eventsBitmap m AND e \<noteq> 0) events"

definition record_call :: "call \<Rightarrow> Manager \<Rightarrow> Manager" where
  "record_call c m = m\<lparr>calls := calls m @ [c]\<rparr>"

section \<open>Identity labels and endpoint metadata\<close>

text \<open>
  \<open>getIdentityLabels\<close>: wait for the global identities, then look the identity up;
  a nil identity is an error.
\<close>

definition getIdentityLabels :: "env \<Rightarrow> int \<Rightarrow> error + labels" where
  "getIdentityLabels e securityIdentity =
     (if WaitForInitialGlobalIdentities_err e then Inl WaitForInitialGlobalIdentitiesFailed
      else case LookupIdentityByID e securityIdentity of
             None \<Rightarrow> Inl (IdentityNotFound securityIdentity)
           | Some identityLabels \<Rightarrow> Inr identityLabels)"

text \<open>
  Modelled from the spec: \<open>getEndpointMetadata\<close> is not among the sources. The spec gives
  the metadata an id (the namespaced name), the IPv4 addresses and the labels, and says
  that the construction can fail; when it fails is the parameter
  \<open>getEndpointMetadata_err\<close>.
\<close>

definition getEndpointMetadata :: "env \<Rightarrow> CiliumEndpoint \<Rightarrow> labels \<Rightarrow> error + endpointMetadata" where
  "getEndpointMetadata e ep identityLabels =
     (if getEndpointMetadata_err e ep then Inl InvalidEndpointMetadata
      else Inr \<lparr>ep_labels = identityLabels,
                endpoint_id = (ep_Namespace ep, ep_Name ep),
                ips = Addressing ep\<rparr>)"

section \<open>Policies\<close>

text \<open>
  Modelled from the spec: \<open>updateMatchedEndpointIDs\<close> is not among the sources. It
  re-evaluates the selectors of the policy against \<open>epDataStore\<close>.
\<close>

definition updateMatchedEndpointIDs ::
  "(endpointID \<times> endpointMetadata) list \<Rightarrow> PolicyConfig \<Rightarrow> PolicyConfig" where
  "updateMatchedEndpointIDs eps config =
     config\<lparr>matchedEndpoints := filter (endpointSelectors config) (map snd eps)\<rparr>"

text \<open>
  Modelled from the spec: \<open>regenerateGatewayConfig\<close> is not among the sources. It
  recomputes the gateway configuration of the policy from its gateway specification and
  the sorted \<open>nodes\<close> slice.
\<close>

definition regenerateGatewayConfig :: "Manager \<Rightarrow> PolicyConfig \<Rightarrow> PolicyConfig" where
  "regenerateGatewayConfig m config = config\<lparr>gatewayConfig := policyGwConfig config (nodes m)\<rparr>"

definition OnAddEgressPolicy :: "PolicyConfig \<Rightarrow> Manager \<Rightarrow> Manager" where
  "OnAddEgressPolicy config m =
     (let config' = updateMatchedEndpointIDs (epDataStore m) config;
          a = nextAddr m;
          m1 = m\<lparr>policyStore := (policyStore m)(a := config'),
                 nextAddr := Suc a,
                 policyConfigs := AList.update (policy_id config') a (policyConfigs m)\<rparr>;
          m2 = setEventBitmap [eventAddPolicy] m1
      in record_call (TriggerWithReason ''policy added'') m2)"

definition OnDeleteEgressPolicy :: "policyID \<Rightarrow> Manager \<Rightarrow> Manager" where
  "OnDeleteEgressPolicy configID m =
     (case map_of (policyConfigs m) configID of
        None \<Rightarrow> m
      | Some a \<Rightarrow>
          (let m1 = m\<lparr>policyConfigs := AList.delete configID (policyConfigs m)\<rparr>;
               m2 = setEventBitmap [eventDeletePolicy] m1
           in record_call (TriggerWithReason ''policy deleted'') m2))"

section \<open>Endpoints\<close>

definition endpointEventIsPending :: "Manager \<Rightarrow> endpointID \<Rightarrow> bool" where
  "endpointEventIsPending m ident = (pendingEndpointEvents m ident \<noteq> None)"

text \<open>
  \<open>addEndpoint\<close>. The pending entry is read again under the manager's lock; its
  \<open>endpoint\<close> pointer is dereferenced with no check (\<open>endpoint.Name\<close>), and then the
  \<open>Identity\<close> pointer of the endpoint (\<open>endpoint.Identity.ID\<close>).
\<close>

definition addEndpoint :: "env \<Rightarrow> endpointID \<Rightarrow> Manager \<Rightarrow> error + Manager" where
  "addEndpoint e ident m =
     (case pendingEndpointEvents m ident of
        None \<Rightarrow> Inr m
      | Some epEvent \<Rightarrow>
          (case endpoint epEvent of
             None \<Rightarrow> Inl NilPointerDereference
           | Some ep \<Rightarrow>
               (case Identity ep of
                  None \<Rightarrow> Inl NilPointerDereference
                | Some identity \<Rightarrow>
                    (case getIdentityLabels e (ID identity mod 2 ^ 32) of
                       Inl err \<Rightarrow> Inr m
                     | Inr identityLabels \<Rightarrow>
                         (let m1 = m\<lparr>pendingEndpointEvents :=
                                        (pendingEndpointEvents m)(ident := None)\<rparr>
                          in case getEndpointMetadata e ep identityLabels of
                               Inl err \<Rightarrow> Inr m1
                             | Inr epData \<Rightarrow>
                                 (let m2 = m1\<lparr>epDataStore :=
                                            AList.update (endpoint_id epData) epData (epDataStore m1)\<rparr>;
                                      m3 = setEventBitmap [eventUpdateEndpoint] m2
                                  in Inr (record_call (TriggerWithReason ''endpoint updated'') m3)))))))"

definition deleteEndpoint :: "endpointID \<Rightarrow> Manager \<Rightarrow> Manager" where
  "deleteEndpoint ident m =
     (let m1 = m\<lparr>epDataStore := AList.delete ident (epDataStore m)\<rparr>;
          m2 = m1\<lparr>pendingEndpointEvents := (pendingEndpointEvents m1)(ident := None)\<rparr>;
          m3 = setEventBitmap [eventDeleteEndpoint] m2
      in record_call (TriggerWithReason ''endpoint deleted'') m3)"

definition OnUpdateEndpoint :: "CiliumEndpoint \<Rightarrow> Manager \<Rightarrow> Manager" where
  "OnUpdateEndpoint ep m =
     (let ident = (ep_Namespace ep, ep_Name ep);
          m1 = m\<lparr>pendingEndpointEvents := (pendingEndpointEvents m)
                   (ident \<mapsto> \<lparr>eventType = eventUpdateEndpoint, endpoint = Some ep\<rparr>)\<rparr>
      in record_call (QueueAdd ident) m1)"

definition OnDeleteEndpoint :: "CiliumEndpoint \<Rightarrow> Manager \<Rightarrow> Manager" where
  "OnDeleteEndpoint ep m =
     (let ident = (ep_Namespace ep, ep_Name ep);
          m1 = m\<lparr>pendingEndpointEvents := (pendingEndpointEvents m)
                   (ident \<mapsto> \<lparr>eventType = eventDeleteEndpoint, endpoint = None\<rparr>)\<rparr>
      in record_call (QueueAdd ident) m1)"

text \<open>
  One round of the loop of \<open>processCiliumEndpoints\<close>, for the item \<open>ident\<close> taken from
  the queue. The worker reads the pending entry under the read lock and releases the lock
  before it dispatches, so the round is two steps: \<open>worker_lookup\<close>, the read, and
  \<open>worker_dispatch\<close>, everything after it, which runs on the state of that later moment.
  \<open>worker_round\<close> is the round with nothing in between.
\<close>

definition worker_lookup :: "Manager \<Rightarrow> endpointID \<Rightarrow> endpointEvent option" where
  "worker_lookup m ident = pendingEndpointEvents m ident"

definition worker_requeue :: "endpointID \<Rightarrow> Manager \<Rightarrow> Manager" where
  "worker_requeue ident m =
     record_call (QueueDone ident)
       (if endpointEventIsPending m ident then record_call (QueueAddRateLimited ident) m
        else record_call (QueueForget ident) m)"

definition worker_dispatch ::
  "env \<Rightarrow> endpointEvent option \<Rightarrow> endpointID \<Rightarrow> Manager \<Rightarrow> error + Manager" where
  "worker_dispatch e found ident m =
     (case found of
        None \<Rightarrow> Inr (worker_requeue ident m)
      | Some epEvent \<Rightarrow>
          if eventType epEvent = eventUpdateEndpoint then
            (case addEndpoint e ident m of
               Inl err \<Rightarrow> Inl err
             | Inr m1 \<Rightarrow> Inr (worker_requeue ident m1))
          else if eventType epEvent = eventDeleteEndpoint then
            Inr (worker_requeue ident (deleteEndpoint ident m))
          else Inr (worker_requeue ident m))"

definition worker_round :: "env \<Rightarrow> endpointID \<Rightarrow> Manager \<Rightarrow> error + Manager" where
  "worker_round e ident m = worker_dispatch e (worker_lookup m ident) ident m"

section \<open>Nodes\<close>

text \<open>
  \<open>onChangeNodeLocked\<close> collects the values of \<open>nodeDataStore\<close> and sorts them by name.
  \<open>sort.Slice\<close> is not stable; \<open>sort_key\<close> is one of the orders it may produce, and the
  only one when the names differ.
\<close>

definition onChangeNodeLocked :: "eventType \<Rightarrow> Manager \<Rightarrow> Manager" where
  "onChangeNodeLocked ev m =
     (let m1 = m\<lparr>nodes := sort_key Name (map snd (nodeDataStore m))\<rparr>;
          reason = (if ev = eventUpdateNode then ''node updated''
                    else if ev = eventDeleteNode then ''node deleted'' else []);
          m2 = setEventBitmap [ev] m1
      in record_call (TriggerWithReason reason) m2)"

definition OnUpdateNode :: "Node \<Rightarrow> Manager \<Rightarrow> Manager" where
  "OnUpdateNode node m =
     onChangeNodeLocked eventUpdateNode
       (m\<lparr>nodeDataStore := AList.update (Name node) node (nodeDataStore m)\<rparr>)"

definition OnDeleteNode :: "Node \<Rightarrow> Manager \<Rightarrow> Manager" where
  "OnDeleteNode node m =
     onChangeNodeLocked eventDeleteNode
       (m\<lparr>nodeDataStore := AList.delete (Name node) (nodeDataStore m)\<rparr>)"

section \<open>Indexing policies by source IP\<close>

text \<open>A method called through the pointer \<open>a\<close> writes its result back to the store.\<close>

definition through :: "addr \<Rightarrow> (Manager \<Rightarrow> PolicyConfig \<Rightarrow> PolicyConfig) \<Rightarrow> Manager \<Rightarrow> Manager" where
  "through a f s = s\<lparr>policyStore := (policyStore s)(a := f s (policyStore s a))\<rparr>"

definition updatePoliciesMatchedEndpointIDs :: "Manager \<Rightarrow> Manager" where
  "updatePoliciesMatchedEndpointIDs m =
     fold (\<lambda>(pid, a). through a (\<lambda>s. updateMatchedEndpointIDs (epDataStore s)))
          (policyConfigs m) m"

text \<open>Reading a key that a Go map does not have gives the nil slice.\<close>

definition bySourceIP :: "Manager \<Rightarrow> ipv4 \<Rightarrow> addr list" where
  "bySourceIP m ip = (case policyConfigsBySourceIP m ip of None \<Rightarrow> [] | Some ps \<Rightarrow> ps)"

definition appendBySourceIP :: "addr \<Rightarrow> ipv4 \<Rightarrow> Manager \<Rightarrow> Manager" where
  "appendBySourceIP a ip s =
     s\<lparr>policyConfigsBySourceIP := (policyConfigsBySourceIP s)(ip \<mapsto> bySourceIP s ip @ [a])\<rparr>"

text \<open>The body of the loop of \<open>updatePoliciesBySourceIP\<close> over \<open>policyConfigs\<close>.\<close>

definition indexPolicy :: "policyID \<times> addr \<Rightarrow> Manager \<Rightarrow> Manager" where
  "indexPolicy = (\<lambda>(pid, a) s.
     fold (\<lambda>ep. fold (appendBySourceIP a) (ips ep)) (matchedEndpoints (policyStore s a)) s)"

definition updatePoliciesBySourceIP :: "Manager \<Rightarrow> Manager" where
  "updatePoliciesBySourceIP m =
     fold indexPolicy (policyConfigs m) (m\<lparr>policyConfigsBySourceIP := Map.empty\<rparr>)"

text \<open>
  \<open>policyMatches\<close>: is there, among the policies indexed under the source IP, an endpoint
  IP equal to it and a destination or excluded CIDR on which the callback answers true.
  The callbacks of the manager have no effect, so the early return is the value of the
  disjunction.
\<close>

definition policyMatches ::
  "Manager \<Rightarrow> ipv4 \<Rightarrow> (ipv4 \<Rightarrow> ipnet \<Rightarrow> bool \<Rightarrow> gatewayConfig \<Rightarrow> bool) \<Rightarrow> bool" where
  "policyMatches m sourceIP f =
     list_ex (\<lambda>a.
       let policy = policyStore m a in
       list_ex (\<lambda>ep.
         list_ex (\<lambda>endpointIP.
           endpointIP = sourceIP \<and>
           (list_ex (\<lambda>dstCIDR. f endpointIP dstCIDR False (gatewayConfig policy))
                    (dstCIDRs policy) \<or>
            list_ex (\<lambda>excludedCIDR. f endpointIP excludedCIDR True (gatewayConfig policy))
                    (excludedCIDRs policy)))
           (ips ep))
         (matchedEndpoints policy))
       (bySourceIP m sourceIP)"

text \<open>
  Modelled from the spec: \<open>destinationMinusExcludedCIDRs\<close> is not among the sources. It
  subtracts the excluded CIDRs from the destination CIDRs; the subtraction is the
  parameter \<open>removeCIDRs\<close>.
\<close>

definition destinationMinusExcludedCIDRs :: "env \<Rightarrow> PolicyConfig \<Rightarrow> ipnet list" where
  "destinationMinusExcludedCIDRs e config = removeCIDRs e (dstCIDRs config) (excludedCIDRs config)"

definition policyMatchesMinusExcludedCIDRs ::
  "env \<Rightarrow> Manager \<Rightarrow> ipv4 \<Rightarrow> (ipv4 \<Rightarrow> ipnet \<Rightarrow> gatewayConfig \<Rightarrow> bool) \<Rightarrow> bool" where
  "policyMatchesMinusExcludedCIDRs e m sourceIP f =
     list_ex (\<lambda>a.
       let policy = policyStore m a;
           cidrs = destinationMinusExcludedCIDRs e policy in
       list_ex (\<lambda>ep.
         list_ex (\<lambda>endpointIP.
           endpointIP = sourceIP \<and>
           list_ex (\<lambda>cidr. f endpointIP cidr (gatewayConfig policy)) cidrs)
           (ips ep))
         (matchedEndpoints policy))
       (bySourceIP m sourceIP)"

definition regenerateGatewayConfigs :: "Manager \<Rightarrow> Manager" where
  "regenerateGatewayConfigs m =
     fold (\<lambda>(pid, a). through a regenerateGatewayConfig) (policyConfigs m) m"

text \<open>
  Modelled from the spec: \<open>forEachEndpointAndCIDR\<close> and
  \<open>forEachEndpointAndDestination\<close> are not among the sources. The first calls back, for
  every IP of every matched endpoint, on the destination CIDRs (excluded = false) and then
  on the excluded CIDRs (excluded = true), as \<open>policyMatches\<close> does; the second on the
  CIDRs of \<open>destinationMinusExcludedCIDRs\<close>. The calls are given as the list of their
  arguments, in order.
\<close>

definition endpointAndCIDRs :: "PolicyConfig \<Rightarrow> (ipv4 \<times> ipnet \<times> bool \<times> gatewayConfig) list" where
  "endpointAndCIDRs config =
     concat (map (\<lambda>ep. concat (map (\<lambda>endpointIP.
         map (\<lambda>dstCIDR. (endpointIP, dstCIDR, False, gatewayConfig config)) (dstCIDRs config) @
         map (\<lambda>excludedCIDR. (endpointIP, excludedCIDR, True, gatewayConfig config))
             (excludedCIDRs config))
       (ips ep))) (matchedEndpoints config))"

definition forEachEndpointAndCIDR ::
  "PolicyConfig \<Rightarrow> (ipv4 \<times> ipnet \<times> bool \<times> gatewayConfig \<Rightarrow> 's \<Rightarrow> 's) \<Rightarrow> 's \<Rightarrow> 's" where
  "forEachEndpointAndCIDR config f = fold f (endpointAndCIDRs config)"

definition endpointAndDestinations :: "env \<Rightarrow> PolicyConfig \<Rightarrow> (ipv4 \<times> ipnet \<times> gatewayConfig) list" where
  "endpointAndDestinations e config =
     concat (map (\<lambda>ep. concat (map (\<lambda>endpointIP.
         map (\<lambda>cidr. (endpointIP, cidr, gatewayConfig config))
             (destinationMinusExcludedCIDRs e config))
       (ips ep))) (matchedEndpoints config))"

definition forEachEndpointAndDestination ::
  "env \<Rightarrow> PolicyConfig \<Rightarrow> (ipv4 \<times> ipnet \<times> gatewayConfig \<Rightarrow> 's \<Rightarrow> 's) \<Rightarrow> 's \<Rightarrow> 's" where
  "forEachEndpointAndDestination e config f = fold f (endpointAndDestinations e config)"

section \<open>IP rules and routes of the host\<close>

text \<open>
  Modelled from the spec: the helpers of the netlink layer (\<open>listEgressIpRules\<close>,
  \<open>listEgressIpRulesForRoutingTable\<close>, \<open>egressIPRuleMatches\<close>, \<open>newEgressIpRule\<close>,
  \<open>deleteIpRule\<close>, \<open>deleteIpRoute\<close>, \<open>addEgressIpRoutes\<close>) are not among the sources.
  \<open>hostRules\<close> holds the egress gateway rules of the host, which is what
  \<open>listEgressIpRules\<close> lists; a rule matches a pair when its source address and its
  destination are those of the pair; the new rule for a pair is the rule of that pair on
  the routing table of the policy. A write that fails leaves the host as it was.
\<close>

definition listEgressIpRulesForRoutingTable :: "Manager \<Rightarrow> int \<Rightarrow> ipRule list" where
  "listEgressIpRulesForRoutingTable m RoutingTableIdx =
     filter (\<lambda>r. rule_Table r = RoutingTableIdx) (hostRules m)"

definition egressIPRuleMatches :: "ipRule \<Rightarrow> ipv4 \<Rightarrow> ipnet \<Rightarrow> bool" where
  "egressIPRuleMatches ipRule endpointIP dstCIDR =
     (IP (Src ipRule) = endpointIP \<and> Dst ipRule = dstCIDR)"

definition newEgressIpRule :: "ipv4 \<Rightarrow> ipnet \<Rightarrow> int \<Rightarrow> ipRule" where
  "newEgressIpRule endpointIP dstCIDR routingTableIdx =
     \<lparr>Src = \<lparr>IP = endpointIP, Mask = 32\<rparr>, Dst = dstCIDR, rule_Table = routingTableIdx\<rparr>"

definition deleteIpRule :: "env \<Rightarrow> ipRule \<Rightarrow> Manager \<Rightarrow> Manager" where
  "deleteIpRule e ipRule m =
     (let m1 = record_call (RuleDel ipRule) m
      in if RuleDel_err e ipRule then m1
         else m1\<lparr>hostRules := remove1 ipRule (hostRules m1)\<rparr>)"

definition deleteIpRoute :: "env \<Rightarrow> ipRoute \<Rightarrow> Manager \<Rightarrow> Manager" where
  "deleteIpRoute e route m =
     (let m1 = record_call (RouteDel route) m
      in if RouteDel_err e route then m1
         else m1\<lparr>hostRoutes := remove1 route (hostRoutes m1)\<rparr>)"

definition addEgressIpRoutes :: "env \<Rightarrow> ipnet \<Rightarrow> int \<Rightarrow> Manager \<Rightarrow> Manager" where
  "addEgressIpRoutes e egressIP' ifaceIndex' m =
     (let m1 = record_call (RouteAdd egressIP' ifaceIndex') m
      in if RouteAdd_err e egressIP' ifaceIndex' then m1
         else m1\<lparr>hostRoutes := hostRoutes m1 @ egressIpRoutes e egressIP' ifaceIndex'\<rparr>)"

text \<open>
  The closure \<open>addIPRulesForConfig\<close> of \<open>addMissingIpRulesAndRoutes\<close>; \<open>shouldRetry\<close>, the
  named result it writes, is threaded with the state.
\<close>

definition addIPRulesForConfig ::
  "env \<Rightarrow> bool \<Rightarrow> ipRule list \<Rightarrow> int \<Rightarrow> ipv4 \<times> ipnet \<times> gatewayConfig
     \<Rightarrow> bool \<times> Manager \<Rightarrow> bool \<times> Manager" where
  "addIPRulesForConfig e isRetry ipRules routingTableIdx = (\<lambda>(endpointIP, dstCIDR, gwc) (shouldRetry, m).
     if list_ex (\<lambda>ipRule. egressIPRuleMatches ipRule endpointIP dstCIDR) ipRules
     then (shouldRetry, m)
     else
       (let newRule = newEgressIpRule endpointIP dstCIDR routingTableIdx;
            m1 = record_call (RuleAdd newRule) m
        in if RuleAdd_err e newRule then
             (if isRetry then (shouldRetry, m1) else (True, m1))
           else (shouldRetry, m1\<lparr>hostRules := hostRules m1 @ [newRule]\<rparr>)))"

text \<open>The body of the loop of \<open>addMissingIpRulesAndRoutes\<close> over \<open>policyConfigs\<close>.\<close>

definition addIpRulesAndRoutesForPolicy ::
  "env \<Rightarrow> bool \<Rightarrow> policyID \<times> addr \<Rightarrow> bool \<times> Manager \<Rightarrow> bool \<times> Manager" where
  "addIpRulesAndRoutesForPolicy e isRetry = (\<lambda>(pid, a) (shouldRetry, s).
     let policyConfig = policyStore s a;
         gwc = gatewayConfig policyConfig
     in if \<not> localNodeConfiguredAsGateway gwc \<or> length (matchedEndpoints policyConfig) = 0
        then (shouldRetry, s)
        else
          (let routingTableIdx = egressGatewayRoutingTableIdx e (ifaceIndex gwc);
               s1 = record_call RuleList s
           in if RuleList_err e then (shouldRetry, s1)
              else
                (let ipRules = listEgressIpRulesForRoutingTable s1 routingTableIdx;
                     (shouldRetry', s2) =
                       forEachEndpointAndDestination e policyConfig
                         (addIPRulesForConfig e isRetry ipRules routingTableIdx)
                         (shouldRetry, s1)
                 in (shouldRetry', addEgressIpRoutes e (egressIP gwc) (ifaceIndex gwc) s2))))"

definition addMissingIpRulesAndRoutes :: "env \<Rightarrow> bool \<Rightarrow> Manager \<Rightarrow> bool \<times> Manager" where
  "addMissingIpRulesAndRoutes e isRetry m =
     (if \<not> installRoutes m then (False, m)
      else fold (addIpRulesAndRoutesForPolicy e isRetry) (policyConfigs m) (False, m))"

definition activeEgressGwIfaceIndexes :: "Manager \<Rightarrow> int list" where
  "activeEgressGwIfaceIndexes m =
     map (\<lambda>(pid, a). ifaceIndex (gatewayConfig (policyStore m a)))
       (filter (\<lambda>(pid, a). length (matchedEndpoints (policyStore m a)) \<noteq> 0 \<and>
                            localNodeConfiguredAsGateway (gatewayConfig (policyStore m a)))
               (policyConfigs m))"

text \<open>The bodies of the two loops of \<open>removeUnusedIpRulesAndRoutes\<close>, over the rules and over the routes.\<close>

definition removeUnusedIpRule :: "env \<Rightarrow> ipRule \<Rightarrow> Manager \<Rightarrow> Manager" where
  "removeUnusedIpRule e ipRule s =
     (if policyMatchesMinusExcludedCIDRs e s (IP (Src ipRule))
           (\<lambda>endpointIP dstCIDR gwc.
              if \<not> installRoutes s then False
              else if \<not> localNodeConfiguredAsGateway gwc then False
              else Dst ipRule = dstCIDR)
      then s
      else deleteIpRule e ipRule s)"

definition removeUnusedIpRoute :: "env \<Rightarrow> int list \<Rightarrow> ipRoute \<Rightarrow> Manager \<Rightarrow> Manager" where
  "removeUnusedIpRoute e active route s =
     (if route_Table route \<noteq> egressGatewayRoutingTableIdx e (LinkIndex route) then s
      else if LinkIndex route \<in> set active then s
      else deleteIpRoute e route s)"

definition removeUnusedIpRulesAndRoutes :: "env \<Rightarrow> Manager \<Rightarrow> Manager" where
  "removeUnusedIpRulesAndRoutes e m =
     (let m0 = record_call RuleList m
      in if RuleList_err e then m0
         else
           (let m1 = fold (removeUnusedIpRule e) (hostRules m0) m0;
                active = activeEgressGwIfaceIndexes m1;
                m2 = record_call RouteList m1
            in if RouteList_err e then m2
               else fold (removeUnusedIpRoute e active) (hostRoutes m2) m2))"

section \<open>The policy map\<close>

text \<open>
  Modelled from the spec: package \<open>egressmap\<close> is not among the sources. The policy map
  is a keyed table from (source IP, destination CIDR) to (egress IP, gateway IP) with
  \<open>Update\<close>, \<open>Delete\<close> and \<open>IterateWithCallback\<close>; a key matches on source and CIDR, mask
  included, and a value on both IPs. A write that fails leaves the table as it was.
\<close>

definition NewEgressPolicyKey4 :: "ipv4 \<Rightarrow> ipv4 \<Rightarrow> nat \<Rightarrow> EgressPolicyKey4" where
  "NewEgressPolicyKey4 sourceIP destIP destinationMask =
     \<lparr>SourceIP = sourceIP, DestCIDR = \<lparr>IP = destIP, Mask = destinationMask\<rparr>\<rparr>"

definition key_Match :: "EgressPolicyKey4 \<Rightarrow> ipv4 \<Rightarrow> ipnet \<Rightarrow> bool" where
  "key_Match k sourceIP destCIDR = (SourceIP k = sourceIP \<and> DestCIDR k = destCIDR)"

definition val_Match :: "EgressPolicyVal4 \<Rightarrow> ipv4 \<Rightarrow> ipv4 \<Rightarrow> bool" where
  "val_Match v egressIP' gatewayIP' = (EgressIP v = egressIP' \<and> GatewayIP v = gatewayIP')"

definition policyMap_Update :: "env \<Rightarrow> ipv4 \<Rightarrow> ipnet \<Rightarrow> ipv4 \<Rightarrow> ipv4 \<Rightarrow> Manager \<Rightarrow> Manager" where
  "policyMap_Update e sourceIP destCIDR egressIP' gatewayIP' m =
     (let k = NewEgressPolicyKey4 sourceIP (IP destCIDR) (Mask destCIDR);
          v = \<lparr>EgressIP = egressIP', GatewayIP = gatewayIP'\<rparr>;
          m1 = record_call (MapUpdate k v) m
      in if Update_err e k v then m1
         else m1\<lparr>policyMap := AList.update k v (policyMap m1)\<rparr>)"

definition policyMap_Delete :: "env \<Rightarrow> ipv4 \<Rightarrow> ipnet \<Rightarrow> Manager \<Rightarrow> Manager" where
  "policyMap_Delete e sourceIP destCIDR m =
     (let k = NewEgressPolicyKey4 sourceIP (IP destCIDR) (Mask destCIDR);
          m1 = record_call (MapDelete k) m
      in if Delete_err e k then m1
         else m1\<lparr>policyMap := AList.delete k (policyMap m1)\<rparr>)"

text \<open>
  The snapshot both passes take first: \<open>IterateWithCallback\<close> with a callback that stores
  every entry into the Go map \<open>egressPolicies\<close>.
\<close>

definition egressPolicies_of :: "Manager \<Rightarrow> (EgressPolicyKey4 \<times> EgressPolicyVal4) list" where
  "egressPolicies_of m = fold (\<lambda>(key, val) acc. AList.update key val acc) (policyMap m) []"

definition addEgressRule ::
  "env \<Rightarrow> (EgressPolicyKey4 \<times> EgressPolicyVal4) list \<Rightarrow> ipv4 \<times> ipnet \<times> bool \<times> gatewayConfig
     \<Rightarrow> Manager \<Rightarrow> Manager" where
  "addEgressRule e egressPolicies = (\<lambda>(endpointIP, dstCIDR, excludedCIDR, gwc) m.
     let policyKey = NewEgressPolicyKey4 endpointIP (IP dstCIDR) (Mask dstCIDR);
         gatewayIP' = (if excludedCIDR then ExcludedCIDRIPv4 else gatewayIP gwc)
     in case map_of egressPolicies policyKey of
          None \<Rightarrow> policyMap_Update e endpointIP dstCIDR (IP (egressIP gwc)) gatewayIP' m
        | Some policyVal \<Rightarrow>
            if val_Match policyVal (IP (egressIP gwc)) gatewayIP' then m
            else policyMap_Update e endpointIP dstCIDR (IP (egressIP gwc)) gatewayIP' m)"

text \<open>The body of the loop of \<open>addMissingEgressRules\<close> over \<open>policyConfigs\<close>.\<close>

definition addEgressRulesForPolicy ::
  "env \<Rightarrow> (EgressPolicyKey4 \<times> EgressPolicyVal4) list \<Rightarrow> policyID \<times> addr
     \<Rightarrow> Manager \<Rightarrow> Manager" where
  "addEgressRulesForPolicy e egressPolicies = (\<lambda>(pid, a) s.
     forEachEndpointAndCIDR (policyStore s a) (addEgressRule e egressPolicies) s)"

definition addMissingEgressRules :: "env \<Rightarrow> Manager \<Rightarrow> Manager" where
  "addMissingEgressRules e m =
     (let m1 = record_call MapIterate m;
          egressPolicies = egressPolicies_of m1
      in fold (addEgressRulesForPolicy e egressPolicies) (policyConfigs m1) m1)"

definition matchPolicy ::
  "EgressPolicyKey4 \<Rightarrow> EgressPolicyVal4 \<Rightarrow> ipv4 \<Rightarrow> ipnet \<Rightarrow> bool \<Rightarrow> gatewayConfig \<Rightarrow> bool" where
  "matchPolicy policyKey policyVal endpointIP dstCIDR excludedCIDR gwc =
     (let gatewayIP' = (if excludedCIDR then ExcludedCIDRIPv4 else gatewayIP gwc)
      in key_Match policyKey endpointIP dstCIDR \<and>
         val_Match policyVal (IP (egressIP gwc)) gatewayIP')"

text \<open>The body of the loop of \<open>removeUnusedEgressRules\<close> over the snapshot.\<close>

definition removeUnusedEgressRule ::
  "env \<Rightarrow> EgressPolicyKey4 \<times> EgressPolicyVal4 \<Rightarrow> Manager \<Rightarrow> Manager" where
  "removeUnusedEgressRule e = (\<lambda>(policyKey, policyVal) s.
     if policyMatches s (SourceIP policyKey) (matchPolicy policyKey policyVal) then s
     else policyMap_Delete e (SourceIP policyKey) (DestCIDR policyKey) s)"

definition removeUnusedEgressRules :: "env \<Rightarrow> Manager \<Rightarrow> Manager" where
  "removeUnusedEgressRules e m =
     (let m1 = record_call MapIterate m;
          egressPolicies = egressPolicies_of m1
      in fold (removeUnusedEgressRule e) egressPolicies m1)"

section \<open>Reconciliation\<close>

definition reconcileLocked :: "env \<Rightarrow> Manager \<Rightarrow> Manager" where
  "reconcileLocked e m =
     (if \<not> cacheStatus m then m
      else
        (let m1 = (if eventBitmapIsSet m [eventUpdateEndpoint, eventDeleteEndpoint]
                   then updatePoliciesBySourceIP (updatePoliciesMatchedEndpointIDs m) else m);
             m2 = (if eventBitmapIsSet m1 [eventAddPolicy, eventDeletePolicy]
                   then updatePoliciesBySourceIP m1 else m1);
             m3 = (if eventBitmapIsSet m2 [eventK8sSyncDone]
                   then updatePoliciesBySourceIP (updatePoliciesMatchedEndpointIDs m2) else m2);
             m4 = regenerateGatewayConfigs m3;
             (shouldRetry, m5) = addMissingIpRulesAndRoutes e False m4;
             m6 = removeUnusedIpRulesAndRoutes e m5;
             m7 = (if shouldRetry then snd (addMissingIpRulesAndRoutes e True m6) else m6);
             m8 = addMissingEgressRules e m7;
             m9 = removeUnusedEgressRules e m8
         in m9\<lparr>eventsBitmap := 0\<rparr>))"

text \<open>
  The initial sync. The watcher closes the channel \<open>cacheStatus\<close>; the goroutine of
  \<open>runReconciliationAfterK8sSync\<close>, which waits for that, then sets the sync bit under
  the lock and fires the trigger. While the channel is open it does nothing.
\<close>

definition cacheStatus_closed :: "Manager \<Rightarrow> Manager" where
  "cacheStatus_closed m = m\<lparr>cacheStatus := True\<rparr>"

definition runReconciliationAfterK8sSync :: "Manager \<Rightarrow> Manager" where
  "runReconciliationAfterK8sSync m =
     (if cacheStatus m
      then record_call (TriggerWithReason ''k8s sync done'') (setEventBitmap [eventK8sSyncDone] m)
      else m)"

section \<open>The manager at start\<close>

text \<open>
  The manager \<open>NewEgressGatewayManager\<close> builds, as a function of the option
  \<open>InstallEgressGatewayRoutes\<close>: every cache is empty. No \<open>PolicyConfig\<close> is allocated
  yet: \<open>unallocated\<close> fills the addresses of the store that nothing points to.
\<close>

definition unallocated :: PolicyConfig where
  "unallocated =
     \<lparr>policy_id = ([], []), endpointSelectors = (\<lambda>ep. False), dstCIDRs = [],
      excludedCIDRs = [],
      policyGwConfig = (\<lambda>ns. \<lparr>ifaceIndex = 0, egressIP = \<lparr>IP = 0, Mask = 0\<rparr>,
                               gatewayIP = GatewayNotFoundIPv4,
                               localNodeConfiguredAsGateway = False\<rparr>),
      matchedEndpoints = [],
      gatewayConfig = \<lparr>ifaceIndex = 0, egressIP = \<lparr>IP = 0, Mask = 0\<rparr>,
                       gatewayIP = GatewayNotFoundIPv4,
                       localNodeConfiguredAsGateway = False\<rparr>\<rparr>"

definition NewEgressGatewayManager :: "bool \<Rightarrow> Manager" where
  "NewEgressGatewayManager InstallEgressGatewayRoutes =
     \<lparr>cacheStatus = False, nodeDataStore = [], nodes = [],
      policyStore = (\<lambda>a. unallocated), nextAddr = 0, policyConfigs = [],
      policyConfigsBySourceIP = Map.empty, epDataStore = [],
      pendingEndpointEvents = Map.empty,
      installRoutes = InstallEgressGatewayRoutes, eventsBitmap = 0,
      policyMap = [], hostRules = [], hostRoutes = [], calls = []\<rparr>"

section \<open>Properties\<close>

subsection \<open>The trace\<close>

text \<open>The calls a run adds to the trace.\<close>

definition calls_since :: "Manager \<Rightarrow> Manager \<Rightarrow> call list" where
  "calls_since m m' = drop (length (calls m)) (calls m')"

definition isMapUpdate :: "call \<Rightarrow> bool" where
  "isMapUpdate c = (case c of MapUpdate k v \<Rightarrow> True | _ \<Rightarrow> False)"

definition isMapDelete :: "call \<Rightarrow> bool" where
  "isMapDelete c = (case c of MapDelete k \<Rightarrow> True | _ \<Rightarrow> False)"

definition isMapWrite :: "call \<Rightarrow> bool" where
  "isMapWrite c = (isMapUpdate c \<or> isMapDelete c)"


definition isHostDelete :: "call \<Rightarrow> bool" where
  "isHostDelete c = (case c of RuleDel r \<Rightarrow> True | RouteDel r \<Rightarrow> True | _ \<Rightarrow> False)"

definition isHostCall :: "call \<Rightarrow> bool" where
  "isHostCall c =
     (case c of RuleList \<Rightarrow> True | RuleAdd r \<Rightarrow> True | RuleDel r \<Rightarrow> True
              | RouteList \<Rightarrow> True | RouteAdd c i \<Rightarrow> True | RouteDel r \<Rightarrow> True
              | _ \<Rightarrow> False)"



definition writes_succeed :: "env \<Rightarrow> bool" where
  "writes_succeed e = ((\<forall>k v. \<not> Update_err e k v) \<and> (\<forall>k. \<not> Delete_err e k))"

subsection \<open>The entries of the policy map and the index\<close>

text \<open>The policies of the manager, in the order one \<open>range\<close> over \<open>policyConfigs\<close> visits them.\<close>

definition policies_of :: "Manager \<Rightarrow> PolicyConfig list" where
  "policies_of m = map (\<lambda>(pid, a). policyStore m a) (policyConfigs m)"

text \<open>
  The entries property P1 of the specification asks for: one for every policy, matched
  endpoint, IP of the endpoint and destination or excluded CIDR, with the gateway IP of
  the policy, or 0.0.0.1 on an excluded CIDR.
\<close>

definition P1_entries :: "Manager \<Rightarrow> (EgressPolicyKey4 \<times> EgressPolicyVal4) list" where
  "P1_entries m =
     [(\<lparr>SourceIP = ip, DestCIDR = cidr\<rparr>,
       \<lparr>EgressIP = IP (egressIP (gatewayConfig P)), GatewayIP = gw\<rparr>).
        P \<leftarrow> policies_of m, E \<leftarrow> matchedEndpoints P, ip \<leftarrow> ips E,
        (cidr, gw) \<leftarrow> map (\<lambda>c. (c, gatewayIP (gatewayConfig P))) (dstCIDRs P) @
                     map (\<lambda>c. (c, ExcludedCIDRIPv4)) (excludedCIDRs P)]"

text \<open>No two entries ask for different values under one key.\<close>

definition conflict_free :: "('k \<times> 'v) list \<Rightarrow> bool" where
  "conflict_free es = (\<forall>(k, v) \<in> set es. \<forall>(k', v') \<in> set es. k = k' \<longrightarrow> v = v')"

text \<open>
  A write of the run after a run: never a \<open>Delete\<close>, and an \<open>Update\<close> only of an entry of
  P1 under whose key P1 has another value too.
\<close>

definition rewrite_of_conflict :: "Manager \<Rightarrow> call \<Rightarrow> bool" where
  "rewrite_of_conflict m c =
     (case c of
        MapDelete k \<Rightarrow> False
      | MapUpdate k v \<Rightarrow>
          (k, v) \<in> set (P1_entries m) \<and> (\<exists>v'. v' \<noteq> v \<and> (k, v') \<in> set (P1_entries m))
      | _ \<Rightarrow> True)"

text \<open>
  \<open>policyConfigsBySourceIP\<close> is current: under every IP it holds exactly the policies of
  \<open>policyConfigs\<close> that have a matched endpoint with that IP.
\<close>

definition index_current :: "Manager \<Rightarrow> bool" where
  "index_current m =
     (\<forall>ip. set (bySourceIP m ip) =
            {a \<in> snd ` set (policyConfigs m).
               \<exists>ep \<in> set (matchedEndpoints (policyStore m a)). ip \<in> set (ips ep)})"

text \<open>
  The index is current, or one of the events that make \<open>reconcileLocked\<close> rebuild it is
  pending. Every handler that changes \<open>policyConfigs\<close> or \<open>epDataStore\<close> sets such an
  event.
\<close>

definition index_fresh :: "Manager \<Rightarrow> bool" where
  "index_fresh m =
     (eventBitmapIsSet m [eventUpdateEndpoint, eventDeleteEndpoint, eventAddPolicy,
                          eventDeletePolicy, eventK8sSyncDone] \<or> index_current m)"

text \<open>No key of \<open>policyConfigsBySourceIP\<close> has the empty slice.\<close>

definition no_empty_slice :: "Manager \<Rightarrow> bool" where
  "no_empty_slice s = (\<forall>ip. policyConfigsBySourceIP s ip \<noteq> Some [])"

text \<open>The policy at \<open>a\<close> carries the gateway configuration its specification resolves to.\<close>

definition gateway_ok :: "Manager \<Rightarrow> addr \<Rightarrow> bool" where
  "gateway_ok s a = (gatewayConfig (policyStore s a) = policyGwConfig (policyStore s a) (nodes s))"

text \<open>Every policy of \<open>policyConfigs\<close> carries the gateway configuration its specification resolves to.\<close>

definition gateways_current :: "Manager \<Rightarrow> bool" where
  "gateways_current m =
     (\<forall>a \<in> snd ` set (policyConfigs m).
        gatewayConfig (policyStore m a) = policyGwConfig (policyStore m a) (nodes m))"

text \<open>
  Every entry of \<open>nodeDataStore\<close> is stored under the name of its node, once:
  \<open>OnUpdateNode\<close> is the only writer.
\<close>

definition nodeDataStore_ok :: "Manager \<Rightarrow> bool" where
  "nodeDataStore_ok m =
     (distinct (map fst (nodeDataStore m)) \<and>
      list_all (\<lambda>(k, n). Name n = k) (nodeDataStore m))"

subsection \<open>The states the manager reaches\<close>

text \<open>
  The manager starts with empty caches, over whatever the policy map and the host hold
  from an earlier run. From there every handler, the two steps of the initial sync, every
  dispatch of the endpoint worker that does not panic (on the pending entry it read at
  any earlier moment) and every reconciliation is a step, each in an environment of its
  own.
\<close>

inductive reachable :: "Manager \<Rightarrow> bool" where
  start: "distinct (map fst pm) \<Longrightarrow>
          reachable (NewEgressGatewayManager r\<lparr>policyMap := pm, hostRules := rs, hostRoutes := rts\<rparr>)"
| add_policy: "reachable m \<Longrightarrow> reachable (OnAddEgressPolicy config m)"
| delete_policy: "reachable m \<Longrightarrow> reachable (OnDeleteEgressPolicy configID m)"
| update_endpoint: "reachable m \<Longrightarrow> reachable (OnUpdateEndpoint ep m)"
| delete_endpoint: "reachable m \<Longrightarrow> reachable (OnDeleteEndpoint ep m)"
| update_node: "reachable m \<Longrightarrow> reachable (OnUpdateNode node m)"
| delete_node: "reachable m \<Longrightarrow> reachable (OnDeleteNode node m)"
| synchronized: "reachable m \<Longrightarrow> reachable (cacheStatus_closed m)"
| sync_done: "reachable m \<Longrightarrow> reachable (runReconciliationAfterK8sSync m)"
| worker: "reachable m \<Longrightarrow> worker_dispatch e found ident m = Inr m' \<Longrightarrow> reachable m'"
| reconcile: "reachable m \<Longrightarrow> reachable (reconcileLocked e m)"

text \<open>
  A pending entry that holds an endpoint is stored under the namespaced name of that
  endpoint: \<open>OnUpdateEndpoint\<close> is the only writer of such entries.
\<close>

definition pending_ok :: "Manager \<Rightarrow> bool" where
  "pending_ok m =
     (\<forall>ident epEvent ep.
        pendingEndpointEvents m ident = Some epEvent \<and> endpoint epEvent = Some ep \<longrightarrow>
        ident = (ep_Namespace ep, ep_Name ep))"

definition manager_ok :: "Manager \<Rightarrow> bool" where
  "manager_ok m = (index_fresh m \<and> distinct (map fst (policyMap m)) \<and> nodeDataStore_ok m)"

subsection \<open>What a step leaves alone\<close>

definition calls_extend :: "(call \<Rightarrow> bool) \<Rightarrow> Manager \<Rightarrow> Manager \<Rightarrow> bool" where
  "calls_extend P m m' = (\<exists>t. calls m' = calls m @ t \<and> list_all P t)"

definition same_caches :: "Manager \<Rightarrow> Manager \<Rightarrow> bool" where
  "same_caches m m' =
     (cacheStatus m' = cacheStatus m \<and> nodeDataStore m' = nodeDataStore m \<and>
      nodes m' = nodes m \<and> nextAddr m' = nextAddr m \<and>
      policyConfigs m' = policyConfigs m \<and> epDataStore m' = epDataStore m \<and>
      pendingEndpointEvents m' = pendingEndpointEvents m \<and>
      installRoutes m' = installRoutes m \<and> eventsBitmap m' = eventsBitmap m)"

definition only_index :: "Manager \<Rightarrow> Manager \<Rightarrow> bool" where
  "only_index m m' =
     (same_caches m m' \<and> policyStore m' = policyStore m \<and> policyMap m' = policyMap m \<and>
      hostRules m' = hostRules m \<and> hostRoutes m' = hostRoutes m \<and> calls m' = calls m)"

definition only_store :: "Manager \<Rightarrow> Manager \<Rightarrow> bool" where
  "only_store m m' =
     (same_caches m m' \<and> policyConfigsBySourceIP m' = policyConfigsBySourceIP m \<and>
      policyMap m' = policyMap m \<and>
      hostRules m' = hostRules m \<and> hostRoutes m' = hostRoutes m \<and> calls m' = calls m)"

definition only_policies :: "Manager \<Rightarrow> Manager \<Rightarrow> bool" where
  "only_policies m m' =
     (same_caches m m' \<and> policyMap m' = policyMap m \<and>
      hostRules m' = hostRules m \<and> hostRoutes m' = hostRoutes m \<and> calls m' = calls m)"

definition only_host :: "(call \<Rightarrow> bool) \<Rightarrow> Manager \<Rightarrow> Manager \<Rightarrow> bool" where
  "only_host P m m' =
     (same_caches m m' \<and> policyStore m' = policyStore m \<and>
      policyConfigsBySourceIP m' = policyConfigsBySourceIP m \<and>
      policyMap m' = policyMap m \<and> calls_extend P m m')"

definition only_map :: "(call \<Rightarrow> bool) \<Rightarrow> Manager \<Rightarrow> Manager \<Rightarrow> bool" where
  "only_map P m m' =
     (same_caches m m' \<and> policyStore m' = policyStore m \<and>
      policyConfigsBySourceIP m' = policyConfigsBySourceIP m \<and>
      hostRules m' = hostRules m \<and> hostRoutes m' = hostRoutes m \<and> calls_extend P m m')"

subsection \<open>The stages of \<open>reconcileLocked\<close>\<close>

text \<open>The index refresh, and the pass over ip rules and routes with its one retry.\<close>

definition reconcile_refresh :: "Manager \<Rightarrow> Manager" where
  "reconcile_refresh m =
     (let m1 = (if eventBitmapIsSet m [eventUpdateEndpoint, eventDeleteEndpoint]
                then updatePoliciesBySourceIP (updatePoliciesMatchedEndpointIDs m) else m);
          m2 = (if eventBitmapIsSet m1 [eventAddPolicy, eventDeletePolicy]
                then updatePoliciesBySourceIP m1 else m1)
      in if eventBitmapIsSet m2 [eventK8sSyncDone]
         then updatePoliciesBySourceIP (updatePoliciesMatchedEndpointIDs m2) else m2)"

definition reconcile_routes :: "env \<Rightarrow> Manager \<Rightarrow> Manager" where
  "reconcile_routes e m4 =
     (let (shouldRetry, m5) = addMissingIpRulesAndRoutes e False m4;
          m6 = removeUnusedIpRulesAndRoutes e m5
      in if shouldRetry then snd (addMissingIpRulesAndRoutes e True m6) else m6)"

text \<open>The arguments of one callback of \<open>forEachEndpointAndCIDR\<close>, as an entry of the policy map.\<close>

definition entry_of ::
  "ipv4 \<times> ipnet \<times> bool \<times> gatewayConfig \<Rightarrow> EgressPolicyKey4 \<times> EgressPolicyVal4" where
  "entry_of = (\<lambda>(endpointIP, dstCIDR, excludedCIDR, gwc).
     (\<lparr>SourceIP = endpointIP, DestCIDR = dstCIDR\<rparr>,
      \<lparr>EgressIP = IP (egressIP gwc),
       GatewayIP = (if excludedCIDR then ExcludedCIDRIPv4 else gatewayIP gwc)\<rparr>))"

definition all_endpointAndCIDRs :: "Manager \<Rightarrow> (ipv4 \<times> ipnet \<times> bool \<times> gatewayConfig) list" where
  "all_endpointAndCIDRs m = concat (map endpointAndCIDRs (policies_of m))"

section \<open>The scenarios of the specification\<close>

text \<open>An environment in which every lookup and every write succeeds.\<close>

definition env_ok :: env where
  "env_ok =
     \<lparr>WaitForInitialGlobalIdentities_err = False,
      LookupIdentityByID = (\<lambda>i. Some []),
      getEndpointMetadata_err = (\<lambda>ep. False),
      Update_err = (\<lambda>k v. False), Delete_err = (\<lambda>k. False),
      RuleList_err = False, RuleAdd_err = (\<lambda>r. False), RuleDel_err = (\<lambda>r. False),
      RouteList_err = False, RouteAdd_err = (\<lambda>c i. False), RouteDel_err = (\<lambda>r. False),
      egressGatewayRoutingTableIdx = (\<lambda>i. 300 + i),
      removeCIDRs = (\<lambda>dst excl. filter (\<lambda>c. c \<notin> set excl) dst),
      egressIpRoutes = (\<lambda>c i. [\<lparr>LinkIndex = i, route_Table = 300 + i\<rparr>])\<rparr>"

text \<open>
  Endpoint E has the IP 10.0.0.5; the policy selects every endpoint and resolves to the
  egress IP 192.0.2.10 and the gateway 192.0.2.1 on the local node. The scenario is the
  manager after \<open>OnAddEgressPolicy\<close>, \<open>OnUpdateEndpoint\<close>, one round of the endpoint worker
  and the end of the initial sync.
\<close>

definition endpoint_E :: CiliumEndpoint where
  "endpoint_E = \<lparr>ep_Name = ''e'', ep_Namespace = ''default'', Identity = Some \<lparr>ID = 1000\<rparr>,
                 Addressing = [0x0A000005]\<rparr>"

definition cidr_1_2_3_0_24 :: ipnet where
  "cidr_1_2_3_0_24 = \<lparr>IP = 0x01020300, Mask = 24\<rparr>"

definition cidr_1_2_0_0_16 :: ipnet where
  "cidr_1_2_0_0_16 = \<lparr>IP = 0x01020000, Mask = 16\<rparr>"

definition gateway_G :: gatewayConfig where
  "gateway_G = \<lparr>ifaceIndex = 2, egressIP = \<lparr>IP = 0xC000020A, Mask = 24\<rparr>,
                gatewayIP = 0xC0000201, localNodeConfiguredAsGateway = True\<rparr>"

definition policy_P :: "ipnet list \<Rightarrow> ipnet list \<Rightarrow> PolicyConfig" where
  "policy_P dst excl =
     unallocated\<lparr>policy_id := ([], ''p''), endpointSelectors := (\<lambda>ep. True),
                 dstCIDRs := dst, excludedCIDRs := excl,
                 policyGwConfig := (\<lambda>ns. gateway_G)\<rparr>"

definition scenario :: "bool \<Rightarrow> ipnet list \<Rightarrow> ipnet list \<Rightarrow> Manager" where
  "scenario routes dst excl =
     (let m1 = OnAddEgressPolicy (policy_P dst excl) (NewEgressGatewayManager routes);
          m2 = OnUpdateEndpoint endpoint_E m1;
          m3 = (case worker_round env_ok (''default'', ''e'') m2 of Inl err \<Rightarrow> m2 | Inr m \<Rightarrow> m)
      in runReconciliationAfterK8sSync (cacheStatus_closed m3))"

definition key_E :: "ipnet \<Rightarrow> EgressPolicyKey4" where
  "key_E cidr = \<lparr>SourceIP = 0x0A000005, DestCIDR = cidr\<rparr>"

definition val_G :: EgressPolicyVal4 where
  "val_G = \<lparr>EgressIP = 0xC000020A, GatewayIP = 0xC0000201\<rparr>"

definition val_excluded :: EgressPolicyVal4 where
  "val_excluded = \<lparr>EgressIP = 0xC000020A, GatewayIP = 0x00000001\<rparr>"




section \<open>Frames and traces of the steps\<close>

lemma fold_rel:
  assumes "\<And>s. R s s"
    and "\<And>a b c. R a b \<Longrightarrow> R b c \<Longrightarrow> R a c"
    and "\<And>x s. R s (f x s)"
  shows "R s (fold f xs s)"
proof (induction xs arbitrary: s)
  case Nil
  show ?case by (simp add: assms(1))
next
  case (Cons x xs)
  have "R s (f x s)" by (rule assms(3))
  moreover have "R (f x s) (fold f xs (f x s))" by (rule Cons.IH)
  ultimately show ?case using assms(2) by auto
qed

lemma calls_extend_refl: "calls_extend P m m"
  by (simp add: calls_extend_def)

lemma calls_extend_eq: "calls m' = calls m \<Longrightarrow> calls_extend P m m'"
  by (simp add: calls_extend_def)

lemma calls_extend_trans:
  "calls_extend P a b \<Longrightarrow> calls_extend P b c \<Longrightarrow> calls_extend P a c"
  by (auto simp: calls_extend_def)

lemma calls_extend_mono:
  "calls_extend P a b \<Longrightarrow> (\<And>c. P c \<Longrightarrow> Q c) \<Longrightarrow> calls_extend Q a b"
  by (auto simp: calls_extend_def list_all_iff)

lemma calls_extend_record: "P c \<Longrightarrow> calls_extend P m (record_call c m)"
  by (simp add: calls_extend_def record_call_def)

lemma calls_extend_since:
  "calls_extend P m m' \<Longrightarrow> calls m' = calls m @ calls_since m m' \<and> list_all P (calls_since m m')"
  by (auto simp: calls_extend_def calls_since_def)

lemma same_caches_refl: "same_caches m m"
  by (simp add: same_caches_def)

lemma same_caches_trans: "same_caches a b \<Longrightarrow> same_caches b c \<Longrightarrow> same_caches a c"
  by (simp add: same_caches_def)

lemma only_index_refl: "only_index m m"
  by (simp add: only_index_def same_caches_refl)

lemma only_index_trans: "only_index a b \<Longrightarrow> only_index b c \<Longrightarrow> only_index a c"
  by (auto simp: only_index_def intro: same_caches_trans)

lemma only_store_refl: "only_store m m"
  by (simp add: only_store_def same_caches_refl)

lemma only_store_trans: "only_store a b \<Longrightarrow> only_store b c \<Longrightarrow> only_store a c"
  by (auto simp: only_store_def intro: same_caches_trans)

lemma only_host_refl: "only_host P m m"
  by (simp add: only_host_def same_caches_refl calls_extend_refl)

lemma only_host_trans: "only_host P a b \<Longrightarrow> only_host P b c \<Longrightarrow> only_host P a c"
  by (auto simp: only_host_def intro: same_caches_trans calls_extend_trans)

lemma only_host_mono: "only_host P a b \<Longrightarrow> (\<And>c. P c \<Longrightarrow> Q c) \<Longrightarrow> only_host Q a b"
  by (auto simp: only_host_def intro: calls_extend_mono)

lemma only_map_refl: "only_map P m m"
  by (simp add: only_map_def same_caches_refl calls_extend_refl)

lemma only_map_trans: "only_map P a b \<Longrightarrow> only_map P b c \<Longrightarrow> only_map P a c"
  by (auto simp: only_map_def intro: same_caches_trans calls_extend_trans)

lemma only_map_mono: "only_map P a b \<Longrightarrow> (\<And>c. P c \<Longrightarrow> Q c) \<Longrightarrow> only_map Q a b"
  by (auto simp: only_map_def intro: calls_extend_mono)

lemma only_host_record: "P c \<Longrightarrow> only_host P m (record_call c m)"
  by (simp add: only_host_def calls_extend_record) (simp add: record_call_def same_caches_def)

lemma only_map_record: "P c \<Longrightarrow> only_map P m (record_call c m)"
  by (simp add: only_map_def calls_extend_record) (simp add: record_call_def same_caches_def)

subsection \<open>Index and store\<close>

lemma appendBySourceIP_only_index: "only_index s (appendBySourceIP a ip s)"
  by (simp add: only_index_def same_caches_def appendBySourceIP_def)

lemma fold_appendBySourceIP_only_index: "only_index s (fold (appendBySourceIP a) xs s)"
  by (rule fold_rel [where R = only_index])
     (auto intro: only_index_refl only_index_trans appendBySourceIP_only_index)

lemma fold_eps_only_index:
  "only_index s (fold (\<lambda>ep. fold (appendBySourceIP a) (ips ep)) eps s)"
  by (rule fold_rel [where R = only_index])
     (auto intro: only_index_refl only_index_trans fold_appendBySourceIP_only_index)

lemma indexPolicy_only_index: "only_index s (indexPolicy x s)"
  by (cases x) (simp add: indexPolicy_def fold_eps_only_index)

lemma fold_policies_only_index: "only_index s (fold indexPolicy pcs s)"
  by (rule fold_rel [where R = only_index])
     (auto intro: only_index_refl only_index_trans indexPolicy_only_index)

lemma updatePoliciesBySourceIP_only_index: "only_index m (updatePoliciesBySourceIP m)"
proof -
  have "only_index m (m\<lparr>policyConfigsBySourceIP := Map.empty\<rparr>)"
    by (simp add: only_index_def same_caches_def)
  then show ?thesis
    unfolding updatePoliciesBySourceIP_def
    by (rule only_index_trans) (rule fold_policies_only_index)
qed

lemma through_only_store: "only_store s (through a f s)"
  by (simp add: through_def only_store_def same_caches_def)

lemma fold_through_only_store: "only_store s (fold (\<lambda>(pid, a). through a f) pcs s)"
  by (rule fold_rel [where R = only_store])
     (auto intro: only_store_refl only_store_trans through_only_store)

lemma updatePoliciesMatchedEndpointIDs_only_store:
  "only_store m (updatePoliciesMatchedEndpointIDs m)"
  unfolding updatePoliciesMatchedEndpointIDs_def by (rule fold_through_only_store)

lemma regenerateGatewayConfigs_only_store: "only_store m (regenerateGatewayConfigs m)"
  unfolding regenerateGatewayConfigs_def by (rule fold_through_only_store)

subsection \<open>Host rules and routes\<close>

lemma deleteIpRule_only_host: "only_host isHostDelete m (deleteIpRule e r m)"
proof -
  have "only_host isHostDelete m (record_call (RuleDel r) m)"
    by (rule only_host_record) (simp add: isHostDelete_def)
  then show ?thesis
    by (simp add: deleteIpRule_def Let_def only_host_def same_caches_def calls_extend_def)
qed

lemma deleteIpRoute_only_host: "only_host isHostDelete m (deleteIpRoute e r m)"
proof -
  have "only_host isHostDelete m (record_call (RouteDel r) m)"
    by (rule only_host_record) (simp add: isHostDelete_def)
  then show ?thesis
    by (simp add: deleteIpRoute_def Let_def only_host_def same_caches_def calls_extend_def)
qed

lemma addEgressIpRoutes_only_host: "only_host isHostCall m (addEgressIpRoutes e c i m)"
proof -
  have "only_host isHostCall m (record_call (RouteAdd c i) m)"
    by (rule only_host_record) (simp add: isHostCall_def)
  then show ?thesis
    by (simp add: addEgressIpRoutes_def Let_def only_host_def same_caches_def calls_extend_def)
qed

lemma addIPRulesForConfig_only_host:
  "only_host isHostCall (snd bs) (snd (addIPRulesForConfig e isRetry rs idx t bs))"
proof -
  obtain ip c g where t: "t = (ip, c, g)" by (cases t) auto
  obtain b s where bs: "bs = (b, s)" by (cases bs) auto
  have "only_host isHostCall s (record_call (RuleAdd (newEgressIpRule ip c idx)) s)"
    by (rule only_host_record) (simp add: isHostCall_def)
  then show ?thesis
    by (simp add: t bs addIPRulesForConfig_def Let_def only_host_refl)
       (simp add: only_host_def same_caches_def calls_extend_def)
qed

lemma forEachEndpointAndDestination_only_host:
  "only_host isHostCall (snd bs)
     (snd (forEachEndpointAndDestination e config (addIPRulesForConfig e isRetry rs idx) bs))"
  unfolding forEachEndpointAndDestination_def
  by (rule fold_rel [where R = "\<lambda>x y. only_host isHostCall (snd x) (snd y)"])
     (auto intro: only_host_refl only_host_trans addIPRulesForConfig_only_host)

lemma addIpRulesAndRoutesForPolicy_only_host:
  "only_host isHostCall (snd bs) (snd (addIpRulesAndRoutesForPolicy e isRetry x bs))"
proof -
  obtain pid a where x: "x = (pid, a)" by (cases x) auto
  obtain b s where bs: "bs = (b, s)" by (cases bs) auto
  let ?s1 = "record_call RuleList s"
  have r: "only_host isHostCall s ?s1"
    by (rule only_host_record) (simp add: isHostCall_def)
  have f: "only_host isHostCall s
             (snd (forEachEndpointAndDestination e config
                     (addIPRulesForConfig e isRetry rs idx) (b, ?s1)))" for config rs idx
    using forEachEndpointAndDestination_only_host [of "(b, ?s1)" e config isRetry rs idx] r
    by (auto intro: only_host_trans)
  have g: "only_host isHostCall s
             (addEgressIpRoutes e c i (snd (forEachEndpointAndDestination e config
                     (addIPRulesForConfig e isRetry rs idx) (b, ?s1))))" for config rs idx c i
    by (rule only_host_trans [OF f addEgressIpRoutes_only_host])
  show ?thesis
    by (simp add: addIpRulesAndRoutesForPolicy_def x bs Let_def only_host_refl r g split_beta)
qed

lemma addMissingIpRulesAndRoutes_only_host:
  "only_host isHostCall m (snd (addMissingIpRulesAndRoutes e isRetry m))"
proof (cases "installRoutes m")
  case False
  then show ?thesis by (simp add: addMissingIpRulesAndRoutes_def only_host_refl)
next
  case True
  have "only_host isHostCall (snd (False, m))
          (snd (fold (addIpRulesAndRoutesForPolicy e isRetry) (policyConfigs m) (False, m)))"
    by (rule fold_rel [where R = "\<lambda>x y. only_host isHostCall (snd x) (snd y)"])
       (auto intro: only_host_refl only_host_trans addIpRulesAndRoutesForPolicy_only_host)
  then show ?thesis using True by (simp add: addMissingIpRulesAndRoutes_def)
qed


lemma removeUnusedIpRule_only_host:
  "only_host (\<lambda>c. c = RuleList \<or> c = RouteList \<or> isHostDelete c) s (removeUnusedIpRule e r s)"
  unfolding removeUnusedIpRule_def
  by (auto intro: only_host_refl only_host_mono [OF deleteIpRule_only_host])

lemma removeUnusedIpRoute_only_host:
  "only_host (\<lambda>c. c = RuleList \<or> c = RouteList \<or> isHostDelete c) s
     (removeUnusedIpRoute e active r s)"
  unfolding removeUnusedIpRoute_def
  by (auto intro: only_host_refl only_host_mono [OF deleteIpRoute_only_host])

lemma removeUnusedIpRulesAndRoutes_only_host:
  "only_host (\<lambda>c. c = RuleList \<or> c = RouteList \<or> isHostDelete c) m
     (removeUnusedIpRulesAndRoutes e m)"
proof -
  let ?P = "\<lambda>c. c = RuleList \<or> c = RouteList \<or> isHostDelete c"
  let ?m0 = "record_call RuleList m"
  let ?m1 = "fold (removeUnusedIpRule e) (hostRules ?m0) ?m0"
  let ?m2 = "record_call RouteList ?m1"
  have a: "only_host ?P m ?m0" by (rule only_host_record) simp
  have b: "only_host ?P ?m0 ?m1"
    by (rule fold_rel [where R = "only_host ?P"])
       (auto intro: only_host_refl only_host_trans removeUnusedIpRule_only_host)
  have c: "only_host ?P ?m1 ?m2" by (rule only_host_record) simp
  have d: "only_host ?P ?m2 (fold (removeUnusedIpRoute e active) (hostRoutes ?m2) ?m2)" for active
    by (rule fold_rel [where R = "only_host ?P"])
       (auto intro: only_host_refl only_host_trans removeUnusedIpRoute_only_host)
  have m2: "only_host ?P m ?m2"
    by (rule only_host_trans [OF only_host_trans [OF a b] c])
  have m3: "only_host ?P m (fold (removeUnusedIpRoute e active) (hostRoutes ?m2) ?m2)" for active
    by (rule only_host_trans [OF m2 d])
  show ?thesis
    unfolding removeUnusedIpRulesAndRoutes_def Let_def
    using a m2 m3 by simp
qed

subsection \<open>Policy map\<close>

lemma policyMap_Update_only_map: "only_map isMapUpdate m (policyMap_Update e ip c eg gw m)"
proof -
  have "only_map isMapUpdate m (record_call (MapUpdate k v) m)" for k v
    by (rule only_map_record) (simp add: isMapUpdate_def)
  then show ?thesis
    by (simp add: policyMap_Update_def Let_def only_map_def same_caches_def calls_extend_def)
qed

lemma policyMap_Delete_only_map: "only_map isMapDelete m (policyMap_Delete e ip c m)"
proof -
  have "only_map isMapDelete m (record_call (MapDelete k) m)" for k
    by (rule only_map_record) (simp add: isMapDelete_def)
  then show ?thesis
    by (simp add: policyMap_Delete_def Let_def only_map_def same_caches_def calls_extend_def)
qed

lemma addEgressRule_only_map: "only_map isMapUpdate m (addEgressRule e S t m)"
  by (cases t)
     (simp add: addEgressRule_def Let_def only_map_refl policyMap_Update_only_map
        split: option.splits)

lemma fold_addEgressRule_only_map: "only_map isMapUpdate m (fold (addEgressRule e S) ts m)"
  by (rule fold_rel [where R = "only_map isMapUpdate"])
     (auto intro: only_map_refl only_map_trans addEgressRule_only_map)

lemma addEgressRulesForPolicy_only_map:
  "only_map isMapUpdate m (addEgressRulesForPolicy e S x m)"
  by (cases x)
     (simp add: addEgressRulesForPolicy_def forEachEndpointAndCIDR_def fold_addEgressRule_only_map)

lemma fold_addEgressRulesForPolicy_only_map:
  "only_map isMapUpdate m (fold (addEgressRulesForPolicy e S) pcs m)"
  by (rule fold_rel [where R = "only_map isMapUpdate"])
     (auto intro: only_map_refl only_map_trans addEgressRulesForPolicy_only_map)

lemma addMissingEgressRules_only_map:
  "only_map (\<lambda>c. c = MapIterate \<or> isMapUpdate c) m (addMissingEgressRules e m)"
proof -
  let ?P = "\<lambda>c. c = MapIterate \<or> isMapUpdate c"
  let ?m1 = "record_call MapIterate m"
  have a: "only_map ?P m ?m1" by (rule only_map_record) simp
  have "only_map ?P ?m1 (fold (addEgressRulesForPolicy e S) pcs ?m1)" for S pcs
    by (rule only_map_mono [OF fold_addEgressRulesForPolicy_only_map]) simp
  then show ?thesis
    unfolding addMissingEgressRules_def Let_def
    by (rule only_map_trans [OF a])
qed

lemma removeUnusedEgressRule_only_map:
  "only_map isMapDelete m (removeUnusedEgressRule e x m)"
  by (cases x) (simp add: removeUnusedEgressRule_def only_map_refl policyMap_Delete_only_map)

lemma fold_removeUnusedEgressRule_only_map:
  "only_map isMapDelete m (fold (removeUnusedEgressRule e) es m)"
  by (rule fold_rel [where R = "only_map isMapDelete"])
     (auto intro: only_map_refl only_map_trans removeUnusedEgressRule_only_map)

lemma removeUnusedEgressRules_only_map:
  "only_map (\<lambda>c. c = MapIterate \<or> isMapDelete c) m (removeUnusedEgressRules e m)"
proof -
  let ?P = "\<lambda>c. c = MapIterate \<or> isMapDelete c"
  let ?m1 = "record_call MapIterate m"
  have a: "only_map ?P m ?m1" by (rule only_map_record) simp
  have "only_map ?P ?m1 (fold (removeUnusedEgressRule e) es ?m1)" for es
    by (rule only_map_mono [OF fold_removeUnusedEgressRule_only_map]) simp
  then show ?thesis
    unfolding removeUnusedEgressRules_def Let_def
    by (rule only_map_trans [OF a])
qed

subsection \<open>The stages of the reconciliation\<close>

lemma reconcileLocked_synchronized:
  "cacheStatus m \<Longrightarrow>
   reconcileLocked e m =
     (removeUnusedEgressRules e (addMissingEgressRules e
        (reconcile_routes e (regenerateGatewayConfigs (reconcile_refresh m)))))
     \<lparr>eventsBitmap := 0\<rparr>"
  by (simp add: reconcileLocked_def reconcile_refresh_def reconcile_routes_def Let_def split_beta)

lemma only_policies_refl: "only_policies m m"
  by (simp add: only_policies_def same_caches_refl)

lemma only_policies_trans: "only_policies a b \<Longrightarrow> only_policies b c \<Longrightarrow> only_policies a c"
  by (auto simp: only_policies_def intro: same_caches_trans)

lemma only_index_policies: "only_index a b \<Longrightarrow> only_policies a b"
  by (simp add: only_index_def only_policies_def)

lemma only_store_policies: "only_store a b \<Longrightarrow> only_policies a b"
  by (simp add: only_store_def only_policies_def)

lemma rebuild_only_policies:
  "only_policies m (updatePoliciesBySourceIP (updatePoliciesMatchedEndpointIDs m))"
  by (rule only_policies_trans
        [OF only_store_policies [OF updatePoliciesMatchedEndpointIDs_only_store]
            only_index_policies [OF updatePoliciesBySourceIP_only_index]])

lemma reconcile_refresh_only_policies: "only_policies m (reconcile_refresh m)"
proof -
  define m1 where "m1 = (if eventBitmapIsSet m [eventUpdateEndpoint, eventDeleteEndpoint]
             then updatePoliciesBySourceIP (updatePoliciesMatchedEndpointIDs m) else m)"
  define m2 where "m2 = (if eventBitmapIsSet m1 [eventAddPolicy, eventDeletePolicy]
             then updatePoliciesBySourceIP m1 else m1)"
  define m3 where "m3 = (if eventBitmapIsSet m2 [eventK8sSyncDone]
             then updatePoliciesBySourceIP (updatePoliciesMatchedEndpointIDs m2) else m2)"
  have 1: "only_policies m m1"
    unfolding m1_def by (simp add: only_policies_refl rebuild_only_policies)
  have 2: "only_policies m1 m2"
    unfolding m2_def
    by (simp add: only_policies_refl only_index_policies [OF updatePoliciesBySourceIP_only_index])
  have 3: "only_policies m2 m3"
    unfolding m3_def by (simp add: only_policies_refl rebuild_only_policies)
  have "only_policies m m3"
    by (rule only_policies_trans [OF only_policies_trans [OF 1 2] 3])
  then show ?thesis
    unfolding reconcile_refresh_def Let_def m3_def m2_def m1_def .
qed

lemma reconcile_routes_only_host: "only_host isHostCall m (reconcile_routes e m)"
proof -
  obtain b m5 where a: "addMissingIpRulesAndRoutes e False m = (b, m5)"
    by (cases "addMissingIpRulesAndRoutes e False m") auto
  let ?m6 = "removeUnusedIpRulesAndRoutes e m5"
  have 5: "only_host isHostCall m m5"
    using addMissingIpRulesAndRoutes_only_host [of m e False] a by simp
  have 6: "only_host isHostCall m5 ?m6"
    by (rule only_host_mono [OF removeUnusedIpRulesAndRoutes_only_host])
       (auto simp: isHostCall_def isHostDelete_def split: call.splits)
  have 7: "only_host isHostCall ?m6 (snd (addMissingIpRulesAndRoutes e True ?m6))"
    by (rule addMissingIpRulesAndRoutes_only_host)
  have "only_host isHostCall m ?m6" by (rule only_host_trans [OF 5 6])
  moreover have "only_host isHostCall m (snd (addMissingIpRulesAndRoutes e True ?m6))"
    by (rule only_host_trans [OF only_host_trans [OF 5 6] 7])
  ultimately show ?thesis by (simp add: reconcile_routes_def a Let_def)
qed


lemma sorted_wrt_updates_deletes:
  assumes "list_all (\<lambda>c. \<not> isMapDelete c) xs" and "list_all (\<lambda>c. \<not> isMapUpdate c) ys"
  shows "sorted_wrt (\<lambda>c c'. \<not> (isMapDelete c \<and> isMapUpdate c')) (xs @ ys)"
proof -
  have "sorted_wrt (\<lambda>c c'. \<not> (isMapDelete c \<and> isMapUpdate c')) xs"
    using assms(1) by (induction xs) (auto simp: list_all_iff)
  moreover have "sorted_wrt (\<lambda>c c'. \<not> (isMapDelete c \<and> isMapUpdate c')) ys"
    using assms(2) by (induction ys) (auto simp: list_all_iff)
  ultimately show ?thesis
    using assms by (auto simp: sorted_wrt_append list_all_iff)
qed

lemma calls_before_removal:
  "calls_extend (\<lambda>c. \<not> isMapDelete c) m
     (addMissingEgressRules e (reconcile_routes e (regenerateGatewayConfigs (reconcile_refresh m))))"
proof -
  let ?P = "\<lambda>c. \<not> isMapDelete c"
  let ?m3 = "reconcile_refresh m"
  let ?m4 = "regenerateGatewayConfigs ?m3"
  let ?m7 = "reconcile_routes e ?m4"
  have 3: "calls_extend ?P m ?m3"
    using reconcile_refresh_only_policies [of m]
    by (simp add: only_policies_def calls_extend_eq)
  have 4: "calls_extend ?P ?m3 ?m4"
    using regenerateGatewayConfigs_only_store [of ?m3]
    by (simp add: only_store_def calls_extend_eq)
  have 7: "calls_extend ?P ?m4 ?m7"
    using reconcile_routes_only_host [of ?m4 e]
    by (auto simp: only_host_def isHostCall_def isMapDelete_def intro: calls_extend_mono
          split: call.splits)
  have 8: "calls_extend ?P ?m7 (addMissingEgressRules e ?m7)"
    using addMissingEgressRules_only_map [of ?m7 e]
    by (auto simp: only_map_def isMapUpdate_def isMapDelete_def intro: calls_extend_mono
          split: call.splits)
  show ?thesis
    by (rule calls_extend_trans [OF calls_extend_trans [OF calls_extend_trans [OF 3 4] 7] 8])
qed

lemma calls_of_removal:
  "calls_extend (\<lambda>c. \<not> isMapUpdate c) m (removeUnusedEgressRules e m)"
  using removeUnusedEgressRules_only_map [of m e]
  by (auto simp: only_map_def isMapUpdate_def isMapDelete_def intro: calls_extend_mono
        split: call.splits)

section \<open>The index by source IP\<close>

lemma bySourceIP_append:
  "bySourceIP (appendBySourceIP a ip s) ip' =
     (if ip' = ip then bySourceIP s ip @ [a] else bySourceIP s ip')"
  by (simp add: appendBySourceIP_def bySourceIP_def)

lemma no_empty_slice_append: "no_empty_slice s \<Longrightarrow> no_empty_slice (appendBySourceIP a ip s)"
  by (simp add: no_empty_slice_def appendBySourceIP_def)

lemma set_fold_append:
  "set (bySourceIP (fold (appendBySourceIP a) xs s) ip) =
     set (bySourceIP s ip) \<union> (if ip \<in> set xs then {a} else {})"
  by (induction xs arbitrary: s) (auto simp: bySourceIP_append)

lemma no_empty_fold_append:
  "no_empty_slice s \<Longrightarrow> no_empty_slice (fold (appendBySourceIP a) xs s)"
  by (induction xs arbitrary: s) (auto simp: no_empty_slice_append)

lemma set_fold_eps:
  "set (bySourceIP (fold (\<lambda>ep. fold (appendBySourceIP a) (ips ep)) eps s) ip) =
     set (bySourceIP s ip) \<union> (if \<exists>ep \<in> set eps. ip \<in> set (ips ep) then {a} else {})"
  by (induction eps arbitrary: s) (auto simp: set_fold_append)

lemma no_empty_fold_eps:
  "no_empty_slice s \<Longrightarrow>
   no_empty_slice (fold (\<lambda>ep. fold (appendBySourceIP a) (ips ep)) eps s)"
  by (induction eps arbitrary: s) (auto simp: no_empty_fold_append)

lemma indexPolicy_store: "policyStore (indexPolicy x s) = policyStore s"
  using indexPolicy_only_index [of s x] by (simp add: only_index_def)

lemma set_fold_indexPolicy:
  "set (bySourceIP (fold indexPolicy pcs s) ip) =
     set (bySourceIP s ip) \<union>
     {a \<in> snd ` set pcs. \<exists>ep \<in> set (matchedEndpoints (policyStore s a)). ip \<in> set (ips ep)}"
proof (induction pcs arbitrary: s)
  case Nil
  show ?case by simp
next
  case (Cons x pcs)
  obtain pid a where x: "x = (pid, a)" by (cases x) auto
  have "set (bySourceIP (indexPolicy x s) ip) =
          set (bySourceIP s ip) \<union>
          (if \<exists>ep \<in> set (matchedEndpoints (policyStore s a)). ip \<in> set (ips ep) then {a} else {})"
    by (simp add: x indexPolicy_def set_fold_eps)
  then show ?case
    by (auto simp: Cons.IH indexPolicy_store x)
qed

lemma no_empty_fold_indexPolicy:
  "no_empty_slice s \<Longrightarrow> no_empty_slice (fold indexPolicy pcs s)"
proof (induction pcs arbitrary: s)
  case Nil
  then show ?case by simp
next
  case (Cons x pcs)
  obtain pid a where x: "x = (pid, a)" by (cases x) auto
  have "no_empty_slice (indexPolicy x s)"
    unfolding x indexPolicy_def using no_empty_fold_eps [OF Cons.prems] by simp
  then have "no_empty_slice (fold indexPolicy pcs (indexPolicy x s))" by (rule Cons.IH)
  then show ?case by simp
qed

lemma updatePoliciesBySourceIP_sets:
  "set (bySourceIP (updatePoliciesBySourceIP m) ip) =
     {a \<in> snd ` set (policyConfigs m).
        \<exists>ep \<in> set (matchedEndpoints (policyStore m a)). ip \<in> set (ips ep)}"
proof -
  have "bySourceIP (m\<lparr>policyConfigsBySourceIP := Map.empty\<rparr>) ip = []"
    by (simp add: bySourceIP_def)
  then show ?thesis
    by (simp add: updatePoliciesBySourceIP_def set_fold_indexPolicy)
qed

lemma updatePoliciesBySourceIP_no_empty: "no_empty_slice (updatePoliciesBySourceIP m)"
  unfolding updatePoliciesBySourceIP_def
  by (rule no_empty_fold_indexPolicy) (simp add: no_empty_slice_def)

lemma updatePoliciesBySourceIP_current: "index_current (updatePoliciesBySourceIP m)"
  using updatePoliciesBySourceIP_only_index [of m]
  by (simp add: index_current_def updatePoliciesBySourceIP_sets only_index_def same_caches_def)


section \<open>The two passes over the policy map\<close>

lemma update_fresh_key:
  "k \<notin> fst ` set al \<Longrightarrow> AList.update k v al = al @ [(k, v)]"
  by (induction al) auto

lemma fold_update_distinct:
  "distinct (map fst (acc @ xs)) \<Longrightarrow>
   fold (\<lambda>(k, v) acc. AList.update k v acc) xs acc = acc @ xs"
proof (induction xs arbitrary: acc)
  case Nil
  show ?case by simp
next
  case (Cons x xs)
  obtain k v where x: "x = (k, v)" by (cases x) auto
  have "k \<notin> fst ` set acc" using Cons.prems by (auto simp: x)
  then have u: "AList.update k v acc = acc @ [(k, v)]" by (rule update_fresh_key)
  have "distinct (map fst ((acc @ [(k, v)]) @ xs))" using Cons.prems by (simp add: x)
  then have "fold (\<lambda>(k, v) acc. AList.update k v acc) xs (acc @ [(k, v)]) = (acc @ [(k, v)]) @ xs"
    by (rule Cons.IH)
  then show ?case by (simp add: x u)
qed

lemma egressPolicies_of_distinct:
  "distinct (map fst (policyMap m)) \<Longrightarrow> egressPolicies_of m = policyMap m"
  using fold_update_distinct [of "[]" "policyMap m"] by (simp add: egressPolicies_of_def)

lemma NewEgressPolicyKey4_eta:
  "NewEgressPolicyKey4 ip (IP (c::ipnet)) (Mask c) = \<lparr>SourceIP = ip, DestCIDR = c\<rparr>"
  by (simp add: NewEgressPolicyKey4_def)

lemma val_Match_eq: "val_Match (v::EgressPolicyVal4) eg gw = (v = \<lparr>EgressIP = eg, GatewayIP = gw\<rparr>)"
  by (cases v) (auto simp: val_Match_def)

lemma key_Match_eq: "key_Match (k::EgressPolicyKey4) ip c = (k = \<lparr>SourceIP = ip, DestCIDR = c\<rparr>)"
  by (cases k) (auto simp: key_Match_def)

lemma policyMap_Update_map:
  "\<not> Update_err e \<lparr>SourceIP = ip, DestCIDR = c\<rparr> \<lparr>EgressIP = eg, GatewayIP = gw\<rparr> \<Longrightarrow>
   policyMap (policyMap_Update e ip c eg gw m) =
     AList.update \<lparr>SourceIP = ip, DestCIDR = c\<rparr> \<lparr>EgressIP = eg, GatewayIP = gw\<rparr> (policyMap m)"
  by (simp add: policyMap_Update_def NewEgressPolicyKey4_eta Let_def record_call_def)

lemma policyMap_Delete_map:
  "\<not> Delete_err e \<lparr>SourceIP = ip, DestCIDR = c\<rparr> \<Longrightarrow>
   policyMap (policyMap_Delete e ip c m) = AList.delete \<lparr>SourceIP = ip, DestCIDR = c\<rparr> (policyMap m)"
  by (simp add: policyMap_Delete_def NewEgressPolicyKey4_eta Let_def record_call_def)

lemma addEgressRule_map:
  assumes "writes_succeed e"
  shows "policyMap (addEgressRule e S t m) =
           (if map_of S (fst (entry_of t)) = Some (snd (entry_of t)) then policyMap m
            else AList.update (fst (entry_of t)) (snd (entry_of t)) (policyMap m))"
proof -
  obtain ip c excl gwc where t: "t = (ip, c, excl, gwc)" by (cases t) auto
  have w: "\<not> Update_err e k v" for k v using assms by (simp add: writes_succeed_def)
  show ?thesis
    by (auto simp: t addEgressRule_def entry_of_def Let_def NewEgressPolicyKey4_eta val_Match_eq
        policyMap_Update_map [OF w] split: option.splits)
qed

lemma addEgressRule_distinct:
  assumes "writes_succeed e" and "distinct (map fst (policyMap m))"
  shows "distinct (map fst (policyMap (addEgressRule e S t m)))"
  using assms(2) by (simp add: addEgressRule_map [OF assms(1)] distinct_update)

lemma fold_addEgressRule_distinct:
  assumes "writes_succeed e" and "distinct (map fst (policyMap m))"
  shows "distinct (map fst (policyMap (fold (addEgressRule e S) ts m)))"
  using assms(2)
  by (induction ts arbitrary: m) (auto simp: addEgressRule_distinct [OF assms(1)])

text \<open>
  The add pass, whatever the entries ask for: a key of the map keeps the value of the
  snapshot or gets the value of one of the entries, and under the key of every entry the
  map then holds the value of an entry of that key.
\<close>

lemma fold_addEgressRule_entries:
  assumes "writes_succeed e"
    and "map_of (policyMap s) = map_of S"
  shows "(\<forall>k. map_of (policyMap (fold (addEgressRule e S) ts s)) k = map_of S k \<or>
              (\<exists>v. map_of (policyMap (fold (addEgressRule e S) ts s)) k = Some v \<and>
                   (k, v) \<in> set (map entry_of ts))) \<and>
         (\<forall>k \<in> fst ` set (map entry_of ts).
              \<exists>v. map_of (policyMap (fold (addEgressRule e S) ts s)) k = Some v \<and>
                  (k, v) \<in> set (map entry_of ts))"
proof (induction ts rule: rev_induct)
  case Nil
  show ?case by (simp add: assms(2))
next
  case (snoc x xs)
  obtain k v where kv: "entry_of x = (k, v)" by (cases "entry_of x") auto
  define R where "R = map_of (policyMap (fold (addEgressRule e S) xs s))"
  define E where "E = set (map entry_of xs)"
  define R' where "R' = map_of (policyMap (fold (addEgressRule e S) (xs @ [x]) s))"
  have E': "set (map entry_of (xs @ [x])) = insert (k, v) E"
    by (simp add: E_def kv)
  have a: "R k' = map_of S k' \<or> (\<exists>v'. R k' = Some v' \<and> (k', v') \<in> E)" for k'
    using snoc.IH unfolding R_def E_def by blast
  have b: "\<exists>v'. R k' = Some v' \<and> (k', v') \<in> E" if "k' \<in> fst ` E" for k'
    using snoc.IH that unfolding R_def E_def by blast
  have R': "R' = (if map_of S k = Some v then R else R(k \<mapsto> v))"
    unfolding R'_def R_def
    by (simp add: addEgressRule_map [OF assms(1)] kv update_conv')
  have a': "R' k' = map_of S k' \<or> (\<exists>v'. R' k' = Some v' \<and> (k', v') \<in> insert (k, v) E)" for k'
    using a [of k'] by (auto simp: R')
  have b': "\<exists>v'. R' k' = Some v' \<and> (k', v') \<in> insert (k, v) E"
    if "k' \<in> fst ` insert (k, v) E" for k'
  proof (cases "k' = k")
    case True
    show ?thesis
    proof (cases "map_of S k = Some v")
      case True
      then show ?thesis using a [of k] \<open>k' = k\<close> by (auto simp: R')
    next
      case False
      then show ?thesis using \<open>k' = k\<close> by (simp add: R')
    qed
  next
    case False
    then have "k' \<in> fst ` E" using that by auto
    from b [OF this] show ?thesis using False by (auto simp: R')
  qed
  show ?case
    unfolding E' R'_def [symmetric] using a' b' by blast
qed

lemma fold_addEgressRule_store:
  "policyStore (fold (addEgressRule e S) ts s) = policyStore s"
  using fold_addEgressRule_only_map [of s e S ts] by (simp add: only_map_def)

lemma fold_addEgressRulesForPolicy_flat:
  "fold (addEgressRulesForPolicy e S) pcs s =
   fold (addEgressRule e S) (concat (map (\<lambda>(pid, a). endpointAndCIDRs (policyStore s a)) pcs)) s"
proof (induction pcs arbitrary: s)
  case Nil
  show ?case by simp
next
  case (Cons x pcs)
  obtain pid a where x: "x = (pid, a)" by (cases x) auto
  let ?s' = "fold (addEgressRule e S) (endpointAndCIDRs (policyStore s a)) s"
  have st: "policyStore ?s' = policyStore s" by (rule fold_addEgressRule_store)
  have "fold (addEgressRulesForPolicy e S) (x # pcs) s = fold (addEgressRulesForPolicy e S) pcs ?s'"
    by (simp add: x addEgressRulesForPolicy_def forEachEndpointAndCIDR_def)
  also have "\<dots> = fold (addEgressRule e S)
       (concat (map (\<lambda>(pid, a). endpointAndCIDRs (policyStore ?s' a)) pcs)) ?s'"
    by (rule Cons.IH)
  finally show ?case by (simp add: x st)
qed

lemma all_endpointAndCIDRs_alt:
  "all_endpointAndCIDRs m =
     concat (map (\<lambda>(pid, a). endpointAndCIDRs (policyStore m a)) (policyConfigs m))"
  by (simp add: all_endpointAndCIDRs_def policies_of_def comp_def split_def)

lemma all_endpointAndCIDRs_cong:
  "policyStore m' = policyStore m \<Longrightarrow> policyConfigs m' = policyConfigs m \<Longrightarrow>
   all_endpointAndCIDRs m' = all_endpointAndCIDRs m"
  by (simp add: all_endpointAndCIDRs_def policies_of_def)

lemma addMissingEgressRules_flat:
  "addMissingEgressRules e m =
     fold (addEgressRule e (egressPolicies_of m)) (all_endpointAndCIDRs m) (record_call MapIterate m)"
  by (simp add: addMissingEgressRules_def Let_def fold_addEgressRulesForPolicy_flat
      all_endpointAndCIDRs_alt record_call_def egressPolicies_of_def)

lemma addMissingEgressRules_entries:
  assumes "writes_succeed e"
    and "distinct (map fst (policyMap m))"
  shows "\<forall>k \<in> fst ` entry_of ` set (all_endpointAndCIDRs m).
           \<exists>v. map_of (policyMap (addMissingEgressRules e m)) k = Some v \<and>
               (k, v) \<in> entry_of ` set (all_endpointAndCIDRs m)"
    and "distinct (map fst (policyMap (addMissingEgressRules e m)))"
proof -
  let ?m1 = "record_call MapIterate m"
  have S: "egressPolicies_of m = policyMap m" by (rule egressPolicies_of_distinct [OF assms(2)])
  have p1: "policyMap ?m1 = policyMap m" by (simp add: record_call_def)
  have "map_of (policyMap ?m1) = map_of (policyMap m)" by (simp add: p1)
  from fold_addEgressRule_entries [OF assms(1) this, of "all_endpointAndCIDRs m"]
  show "\<forall>k \<in> fst ` entry_of ` set (all_endpointAndCIDRs m).
           \<exists>v. map_of (policyMap (addMissingEgressRules e m)) k = Some v \<and>
               (k, v) \<in> entry_of ` set (all_endpointAndCIDRs m)"
    unfolding addMissingEgressRules_flat S by simp
  show "distinct (map fst (policyMap (addMissingEgressRules e m)))"
    unfolding addMissingEgressRules_flat
    by (rule fold_addEgressRule_distinct [OF assms(1)]) (simp add: p1 assms(2))
qed

subsection \<open>Removal\<close>

lemma policyMatches_cong:
  "policyStore s' = policyStore s \<Longrightarrow> policyConfigsBySourceIP s' = policyConfigsBySourceIP s \<Longrightarrow>
   policyMatches s' ip f = policyMatches s ip f"
  by (simp add: policyMatches_def bySourceIP_def)

lemma matchPolicy_entry:
  "matchPolicy k v ip c excl gwc = ((k, v) = entry_of (ip, c, excl, gwc))"
  by (auto simp: matchPolicy_def entry_of_def key_Match_eq val_Match_eq Let_def)

lemma set_endpointAndCIDRs:
  "set (endpointAndCIDRs P) =
     {(ip, c, excl, gatewayConfig P) | ip c excl.
        (\<exists>ep \<in> set (matchedEndpoints P). ip \<in> set (ips ep)) \<and>
        (if excl then c \<in> set (excludedCIDRs P) else c \<in> set (dstCIDRs P))}"
  by (auto simp: endpointAndCIDRs_def)

lemma policyMatches_iff:
  assumes "index_current s"
  shows "policyMatches s (SourceIP k) (matchPolicy k v) =
           ((k, v) \<in> entry_of ` set (all_endpointAndCIDRs s))"
proof
  assume "policyMatches s (SourceIP k) (matchPolicy k v)"
  then obtain a ep ip where
    a: "a \<in> set (bySourceIP s (SourceIP k))" and
    ep: "ep \<in> set (matchedEndpoints (policyStore s a))" and
    ip: "ip \<in> set (ips ep)" and
    d: "(\<exists>c \<in> set (dstCIDRs (policyStore s a)).
           matchPolicy k v ip c False (gatewayConfig (policyStore s a))) \<or>
        (\<exists>c \<in> set (excludedCIDRs (policyStore s a)).
           matchPolicy k v ip c True (gatewayConfig (policyStore s a)))"
    unfolding policyMatches_def list_ex_iff Let_def by blast
  from d obtain c excl where
    c: "if excl then c \<in> set (excludedCIDRs (policyStore s a)) else c \<in> set (dstCIDRs (policyStore s a))" and
    m: "matchPolicy k v ip c excl (gatewayConfig (policyStore s a))"
  proof
    assume "\<exists>c \<in> set (dstCIDRs (policyStore s a)).
              matchPolicy k v ip c False (gatewayConfig (policyStore s a))"
    then obtain c where "c \<in> set (dstCIDRs (policyStore s a))"
      "matchPolicy k v ip c False (gatewayConfig (policyStore s a))" by auto
    then show thesis using that [of False c] by simp
  next
    assume "\<exists>c \<in> set (excludedCIDRs (policyStore s a)).
              matchPolicy k v ip c True (gatewayConfig (policyStore s a))"
    then obtain c where "c \<in> set (excludedCIDRs (policyStore s a))"
      "matchPolicy k v ip c True (gatewayConfig (policyStore s a))" by auto
    then show thesis using that [of True c] by simp
  qed
  from a assms have "a \<in> snd ` set (policyConfigs s)" by (auto simp: index_current_def)
  then have P: "policyStore s a \<in> set (policies_of s)" by (force simp: policies_of_def)
  have "(ip, c, excl, gatewayConfig (policyStore s a)) \<in> set (endpointAndCIDRs (policyStore s a))"
    using ep ip c by (auto simp: set_endpointAndCIDRs)
  with P have "(ip, c, excl, gatewayConfig (policyStore s a)) \<in> set (all_endpointAndCIDRs s)"
    by (auto simp: all_endpointAndCIDRs_def)
  with m show "(k, v) \<in> entry_of ` set (all_endpointAndCIDRs s)"
    by (auto simp: matchPolicy_entry)
next
  assume "(k, v) \<in> entry_of ` set (all_endpointAndCIDRs s)"
  then obtain P t where P: "P \<in> set (policies_of s)" and t: "t \<in> set (endpointAndCIDRs P)"
    and kv: "(k, v) = entry_of t"
    by (auto simp: all_endpointAndCIDRs_def)
  from P obtain a where a: "a \<in> snd ` set (policyConfigs s)" and Pa: "P = policyStore s a"
    by (force simp: policies_of_def)
  from t obtain ip c excl ep where t': "t = (ip, c, excl, gatewayConfig P)"
    and ep: "ep \<in> set (matchedEndpoints P)" and ip: "ip \<in> set (ips ep)"
    and c: "if excl then c \<in> set (excludedCIDRs P) else c \<in> set (dstCIDRs P)"
    by (auto simp: set_endpointAndCIDRs)
  have src: "SourceIP k = ip" using kv by (auto simp: t' entry_of_def)
  have "a \<in> set (bySourceIP s ip)"
    using assms a ep ip by (auto simp: index_current_def Pa)
  moreover have "matchPolicy k v ip c excl (gatewayConfig P)"
    using kv by (simp add: matchPolicy_entry t')
  ultimately show "policyMatches s (SourceIP k) (matchPolicy k v)"
    using ep ip c unfolding policyMatches_def list_ex_iff Let_def src Pa
    by (cases excl) auto
qed


lemma EgressPolicyKey4_eta:
  "\<lparr>SourceIP = SourceIP k, DestCIDR = DestCIDR k\<rparr> = (k::EgressPolicyKey4)"
  by (cases k) simp

lemma removeUnusedEgressRule_map:
  assumes "writes_succeed e"
    and "policyStore s = policyStore m0"
    and "policyConfigsBySourceIP s = policyConfigsBySourceIP m0"
  shows "policyMap (removeUnusedEgressRule e (k, v) s) =
           (if policyMatches m0 (SourceIP k) (matchPolicy k v) then policyMap s
            else AList.delete k (policyMap s))"
proof -
  have w: "\<not> Delete_err e k'" for k' using assms(1) by (simp add: writes_succeed_def)
  have pm: "policyMatches s ip f = policyMatches m0 ip f" for ip f
    by (rule policyMatches_cong [OF assms(2) assms(3)])
  have "policyMap (policyMap_Delete e (SourceIP k) (DestCIDR k) s) = AList.delete k (policyMap s)"
    using policyMap_Delete_map [OF w, of "SourceIP k" "DestCIDR k" s]
    by (simp add: EgressPolicyKey4_eta)
  then show ?thesis by (simp add: removeUnusedEgressRule_def pm)
qed

lemma fold_removeUnusedEgressRule_map:
  assumes "writes_succeed e"
    and "policyStore s = policyStore m0"
    and "policyConfigsBySourceIP s = policyConfigsBySourceIP m0"
  shows "map_of (policyMap (fold (removeUnusedEgressRule e) es s)) k =
           (if \<exists>v. (k, v) \<in> set es \<and> \<not> policyMatches m0 (SourceIP k) (matchPolicy k v)
            then None else map_of (policyMap s) k)"
  using assms(2) assms(3)
proof (induction es arbitrary: s)
  case Nil
  show ?case by simp
next
  case (Cons x es)
  obtain k' v' where x: "x = (k', v')" by (cases x) auto
  let ?s' = "removeUnusedEgressRule e (k', v') s"
  have om: "only_map isMapDelete s ?s'" by (rule removeUnusedEgressRule_only_map)
  have st: "policyStore ?s' = policyStore m0"
    and ix: "policyConfigsBySourceIP ?s' = policyConfigsBySourceIP m0"
    using om Cons.prems by (simp_all add: only_map_def)
  have step: "policyMap ?s' =
           (if policyMatches m0 (SourceIP k') (matchPolicy k' v') then policyMap s
            else AList.delete k' (policyMap s))"
    by (rule removeUnusedEgressRule_map [OF assms(1) Cons.prems])
  have "map_of (policyMap (fold (removeUnusedEgressRule e) ((k', v') # es) s)) k =
          (if \<exists>v. (k, v) \<in> set es \<and> \<not> policyMatches m0 (SourceIP k) (matchPolicy k v)
           then None else map_of (policyMap ?s') k)"
    using Cons.IH [OF st ix] by simp
  then show ?case
    unfolding x by (auto simp: step delete_conv')
qed

lemma fold_removeUnusedEgressRule_distinct:
  assumes "writes_succeed e"
    and "distinct (map fst (policyMap s))"
  shows "distinct (map fst (policyMap (fold (removeUnusedEgressRule e) es s)))"
  using assms(2)
proof (induction es arbitrary: s)
  case Nil
  then show ?case by simp
next
  case (Cons x es)
  obtain k v where x: "x = (k, v)" by (cases x) auto
  have "distinct (map fst (policyMap (removeUnusedEgressRule e x s)))"
    unfolding x using Cons.prems
    by (simp add: removeUnusedEgressRule_map [OF assms(1) refl refl] distinct_delete)
  then show ?case by (simp add: Cons.IH)
qed

lemma removeUnusedEgressRules_map:
  assumes "writes_succeed e"
    and "distinct (map fst (policyMap m))"
    and "index_current m"
  shows "map_of (policyMap (removeUnusedEgressRules e m)) k =
           (if \<exists>v. (k, v) \<in> set (policyMap m) \<and> (k, v) \<notin> entry_of ` set (all_endpointAndCIDRs m)
            then None else map_of (policyMap m) k)"
    and "distinct (map fst (policyMap (removeUnusedEgressRules e m)))"
proof -
  let ?m1 = "record_call MapIterate m"
  have p1: "policyMap ?m1 = policyMap m" "policyStore ?m1 = policyStore m"
    "policyConfigsBySourceIP ?m1 = policyConfigsBySourceIP m"
    by (simp_all add: record_call_def)
  have S: "egressPolicies_of ?m1 = policyMap m"
    using egressPolicies_of_distinct [of ?m1] assms(2) by (simp add: p1)
  have r: "removeUnusedEgressRules e m = fold (removeUnusedEgressRule e) (policyMap m) ?m1"
    by (simp add: removeUnusedEgressRules_def Let_def S)
  show "map_of (policyMap (removeUnusedEgressRules e m)) k =
           (if \<exists>v. (k, v) \<in> set (policyMap m) \<and> (k, v) \<notin> entry_of ` set (all_endpointAndCIDRs m)
            then None else map_of (policyMap m) k)"
    unfolding r
    by (auto simp: fold_removeUnusedEgressRule_map [OF assms(1) p1(2) p1(3)]
          policyMatches_iff [OF assms(3)] p1(1))
  show "distinct (map fst (policyMap (removeUnusedEgressRules e m)))"
    unfolding r
    by (rule fold_removeUnusedEgressRule_distinct [OF assms(1)]) (simp add: p1 assms(2))
qed

lemma index_current_cong:
  "policyStore m' = policyStore m \<Longrightarrow> policyConfigs m' = policyConfigs m \<Longrightarrow>
   policyConfigsBySourceIP m' = policyConfigsBySourceIP m \<Longrightarrow>
   index_current m' = index_current m"
  by (simp add: index_current_def bySourceIP_def)

text \<open>
  Both passes, from a manager whose index is current: every entry the map then holds is
  one of the entries asked for, and every key asked for is in the map, once.
\<close>

lemma policy_map_passes:
  assumes w: "writes_succeed e"
    and d: "distinct (map fst (policyMap m))"
    and i: "index_current m"
  shows "set (policyMap (removeUnusedEgressRules e (addMissingEgressRules e m))) \<subseteq>
           entry_of ` set (all_endpointAndCIDRs m)"
    and "fst ` entry_of ` set (all_endpointAndCIDRs m) \<subseteq>
           fst ` set (policyMap (removeUnusedEgressRules e (addMissingEgressRules e m)))"
    and "distinct (map fst (policyMap (removeUnusedEgressRules e (addMissingEgressRules e m))))"
proof -
  define E where "E = entry_of ` set (all_endpointAndCIDRs m)"
  let ?m8 = "addMissingEgressRules e m"
  let ?m9 = "removeUnusedEgressRules e ?m8"
  have om: "only_map (\<lambda>c. c = MapIterate \<or> isMapUpdate c) m ?m8"
    by (rule addMissingEgressRules_only_map)
  then have same: "policyStore ?m8 = policyStore m" "policyConfigs ?m8 = policyConfigs m"
    "policyConfigsBySourceIP ?m8 = policyConfigsBySourceIP m"
    by (simp_all add: only_map_def same_caches_def)
  have i8: "index_current ?m8" using i by (simp add: index_current_cong [OF same])
  have T8: "all_endpointAndCIDRs ?m8 = all_endpointAndCIDRs m"
    by (rule all_endpointAndCIDRs_cong [OF same(1) same(2)])
  have in8: "\<exists>v. map_of (policyMap ?m8) k = Some v \<and> (k, v) \<in> E" if "k \<in> fst ` E" for k
    using addMissingEgressRules_entries(1) [OF w d] that unfolding E_def by blast
  have d8: "distinct (map fst (policyMap ?m8))"
    by (rule addMissingEgressRules_entries(2) [OF w d])
  have m9: "map_of (policyMap ?m9) k =
           (if \<exists>v. (k, v) \<in> set (policyMap ?m8) \<and> (k, v) \<notin> E
            then None else map_of (policyMap ?m8) k)" for k
    using removeUnusedEgressRules_map(1) [OF w d8 i8, of k] by (simp add: T8 E_def)
  show d9: "distinct (map fst (policyMap ?m9))"
    by (rule removeUnusedEgressRules_map(2) [OF w d8 i8])
  have sub: "(k, v) \<in> E" if "(k, v) \<in> set (policyMap ?m9)" for k v
  proof -
    have s9: "map_of (policyMap ?m9) k = Some v" using that d9 by simp
    then have "map_of (policyMap ?m8) k = Some v" by (simp add: m9 split: if_splits)
    then have "(k, v) \<in> set (policyMap ?m8)" by (rule map_of_SomeD)
    then show ?thesis using s9 by (auto simp: m9 split: if_splits)
  qed
  have keys: "k \<in> fst ` set (policyMap ?m9)" if kE: "k \<in> fst ` E" for k
  proof -
    obtain v where 8: "map_of (policyMap ?m8) k = Some v" and kv: "(k, v) \<in> E"
      using in8 [OF kE] by blast
    have "(k, v') \<in> E" if v': "(k, v') \<in> set (policyMap ?m8)" for v'
    proof -
      have "map_of (policyMap ?m8) k = Some v'" using v' d8 by simp
      with 8 have "v' = v" by simp
      with kv show ?thesis by simp
    qed
    then have "map_of (policyMap ?m9) k = Some v" using 8 by (auto simp: m9)
    then have "(k, v) \<in> set (policyMap ?m9)" by (rule map_of_SomeD)
    then show ?thesis by force
  qed
  show "set (policyMap ?m9) \<subseteq> entry_of ` set (all_endpointAndCIDRs m)"
    using sub unfolding E_def by auto
  show "fst ` entry_of ` set (all_endpointAndCIDRs m) \<subseteq> fst ` set (policyMap ?m9)"
    using keys unfolding E_def by blast
qed

subsection \<open>What the specification asks for, and the state before the passes\<close>

lemma P1_entries_eq: "P1_entries m = map entry_of (all_endpointAndCIDRs m)"
  by (simp add: P1_entries_def all_endpointAndCIDRs_def endpointAndCIDRs_def map_concat comp_def
      entry_of_def)

lemma set_P1_entries: "set (P1_entries m) = entry_of ` set (all_endpointAndCIDRs m)"
  by (simp add: P1_entries_eq)

lemma P1_entries_cong:
  "policyStore m' = policyStore m \<Longrightarrow> policyConfigs m' = policyConfigs m \<Longrightarrow>
   P1_entries m' = P1_entries m"
  by (simp add: P1_entries_def policies_of_def)

lemma eventBitmapIsSet_cong:
  "eventsBitmap m' = eventsBitmap m \<Longrightarrow> eventBitmapIsSet m' es = eventBitmapIsSet m es"
  by (simp add: eventBitmapIsSet_def)

lemma rebuild_current:
  "index_current (updatePoliciesBySourceIP m)"
  by (rule updatePoliciesBySourceIP_current)

lemma reconcile_refresh_current:
  assumes "index_fresh m"
  shows "index_current (reconcile_refresh m)"
proof -
  define m1 where "m1 = (if eventBitmapIsSet m [eventUpdateEndpoint, eventDeleteEndpoint]
             then updatePoliciesBySourceIP (updatePoliciesMatchedEndpointIDs m) else m)"
  define m2 where "m2 = (if eventBitmapIsSet m1 [eventAddPolicy, eventDeletePolicy]
             then updatePoliciesBySourceIP m1 else m1)"
  define m3 where "m3 = (if eventBitmapIsSet m2 [eventK8sSyncDone]
             then updatePoliciesBySourceIP (updatePoliciesMatchedEndpointIDs m2) else m2)"
  have r: "reconcile_refresh m = m3"
    unfolding reconcile_refresh_def Let_def m3_def m2_def m1_def ..
  have e1: "eventsBitmap m1 = eventsBitmap m"
    using rebuild_only_policies [of m]
    by (simp add: m1_def only_policies_def same_caches_def)
  have e2: "eventsBitmap m2 = eventsBitmap m"
    using updatePoliciesBySourceIP_only_index [of m1] e1
    by (simp add: m2_def only_index_def same_caches_def)
  have c1: "index_current m1"
    if "eventBitmapIsSet m [eventUpdateEndpoint, eventDeleteEndpoint] \<or> index_current m"
    using that by (auto simp: m1_def rebuild_current)
  have c2: "index_current m2"
    if "eventBitmapIsSet m [eventAddPolicy, eventDeletePolicy] \<or> index_current m1"
    using that by (auto simp: m2_def rebuild_current eventBitmapIsSet_cong [OF e1])
  have c3: "index_current m3"
    if "eventBitmapIsSet m [eventK8sSyncDone] \<or> index_current m2"
    using that by (auto simp: m3_def rebuild_current eventBitmapIsSet_cong [OF e2])
  have "eventBitmapIsSet m [eventUpdateEndpoint, eventDeleteEndpoint] \<or>
        eventBitmapIsSet m [eventAddPolicy, eventDeletePolicy] \<or>
        eventBitmapIsSet m [eventK8sSyncDone] \<or> index_current m"
    using assms by (auto simp: index_fresh_def eventBitmapIsSet_def)
  then have "index_current m3" using c1 c2 c3 by blast
  then show ?thesis by (simp add: r)
qed

lemma through_regenerate_fields:
  "matchedEndpoints (policyStore (through a regenerateGatewayConfig s) a') =
     matchedEndpoints (policyStore s a') \<and>
   dstCIDRs (policyStore (through a regenerateGatewayConfig s) a') = dstCIDRs (policyStore s a') \<and>
   excludedCIDRs (policyStore (through a regenerateGatewayConfig s) a') =
     excludedCIDRs (policyStore s a') \<and>
   policyGwConfig (policyStore (through a regenerateGatewayConfig s) a') =
     policyGwConfig (policyStore s a')"
  by (simp add: through_def regenerateGatewayConfig_def)

lemma fold_regenerate_matched:
  "matchedEndpoints (policyStore (fold (\<lambda>(pid, a). through a regenerateGatewayConfig) pcs s) a') =
     matchedEndpoints (policyStore s a')"
  by (induction pcs arbitrary: s) (auto simp: through_regenerate_fields)

lemma regenerateGatewayConfigs_current:
  "index_current (regenerateGatewayConfigs m) = index_current m"
  using regenerateGatewayConfigs_only_store [of m]
  by (simp add: index_current_def bySourceIP_def only_store_def same_caches_def
        regenerateGatewayConfigs_def fold_regenerate_matched)

text \<open>The manager the two passes over the policy map start from.\<close>

lemma before_policy_map_passes:
  assumes "index_fresh m"
  shows "index_current (reconcile_routes e (regenerateGatewayConfigs (reconcile_refresh m)))"
    and "policyMap (reconcile_routes e (regenerateGatewayConfigs (reconcile_refresh m))) = policyMap m"
proof -
  let ?m3 = "reconcile_refresh m"
  let ?m4 = "regenerateGatewayConfigs ?m3"
  let ?m7 = "reconcile_routes e ?m4"
  have 3: "index_current ?m3" by (rule reconcile_refresh_current [OF assms])
  then have 4: "index_current ?m4" by (simp add: regenerateGatewayConfigs_current)
  have h: "only_host isHostCall ?m4 ?m7" by (rule reconcile_routes_only_host)
  then have "index_current ?m7 = index_current ?m4"
    by (intro index_current_cong) (simp_all add: only_host_def same_caches_def)
  with 4 show "index_current ?m7" by simp
  show "policyMap ?m7 = policyMap m"
    using h regenerateGatewayConfigs_only_store [of ?m3] reconcile_refresh_only_policies [of m]
    by (simp add: only_host_def only_store_def only_policies_def)
qed


section \<open>A second run\<close>

lemma gateway_ok_through:
  "a = a' \<or> gateway_ok s a \<Longrightarrow> gateway_ok (through a' regenerateGatewayConfig s) a"
  by (auto simp: gateway_ok_def through_def regenerateGatewayConfig_def)

lemma gateway_ok_fold:
  assumes "\<forall>a \<in> A. gateway_ok s a"
  shows "\<forall>a \<in> A \<union> snd ` set pcs.
           gateway_ok (fold (\<lambda>(pid, a). through a regenerateGatewayConfig) pcs s) a"
  using assms
proof (induction pcs arbitrary: s A)
  case Nil
  then show ?case by simp
next
  case (Cons x pcs)
  obtain pid a' where x: "x = (pid, a')" by (cases x) auto
  have "\<forall>a \<in> insert a' A. gateway_ok (through a' regenerateGatewayConfig s) a"
    using Cons.prems by (auto intro: gateway_ok_through)
  from Cons.IH [OF this] show ?case by (simp add: x)
qed

lemma gateways_current_alt: "gateways_current m = (\<forall>a \<in> snd ` set (policyConfigs m). gateway_ok m a)"
  by (simp add: gateways_current_def gateway_ok_def)

lemma regenerateGatewayConfigs_gateways: "gateways_current (regenerateGatewayConfigs m)"
proof -
  have "\<forall>a \<in> {} \<union> snd ` set (policyConfigs m). gateway_ok (regenerateGatewayConfigs m) a"
    unfolding regenerateGatewayConfigs_def by (rule gateway_ok_fold) simp
  moreover have "policyConfigs (regenerateGatewayConfigs m) = policyConfigs m"
    using regenerateGatewayConfigs_only_store [of m] by (simp add: only_store_def same_caches_def)
  ultimately show ?thesis by (simp add: gateways_current_alt)
qed

lemma through_regenerate_id:
  assumes "gateway_ok s a"
  shows "through a regenerateGatewayConfig s = s"
proof -
  have "policyGwConfig (policyStore s a) (nodes s) = gatewayConfig (policyStore s a)"
    using assms by (simp add: gateway_ok_def)
  then have "regenerateGatewayConfig s (policyStore s a) = policyStore s a"
    by (simp add: regenerateGatewayConfig_def)
  then show ?thesis by (simp add: through_def)
qed

lemma fold_regenerate_id:
  "\<forall>a \<in> snd ` set pcs. gateway_ok s a \<Longrightarrow>
   fold (\<lambda>(pid, a). through a regenerateGatewayConfig) pcs s = s"
  by (induction pcs) (auto simp: through_regenerate_id)

lemma regenerateGatewayConfigs_id:
  "gateways_current m \<Longrightarrow> regenerateGatewayConfigs m = m"
  unfolding regenerateGatewayConfigs_def gateways_current_alt by (rule fold_regenerate_id)

lemma gateways_current_cong:
  "policyStore m' = policyStore m \<Longrightarrow> policyConfigs m' = policyConfigs m \<Longrightarrow>
   nodes m' = nodes m \<Longrightarrow> gateways_current m' = gateways_current m"
  by (simp add: gateways_current_def)

lemma reconcile_refresh_id:
  "eventsBitmap m = 0 \<Longrightarrow> reconcile_refresh m = m"
  by (simp add: reconcile_refresh_def eventBitmapIsSet_def)

lemma fold_removeUnusedEgressRule_id:
  assumes "\<forall>(k, v) \<in> set es. policyMatches s (SourceIP k) (matchPolicy k v)"
  shows "fold (removeUnusedEgressRule e) es s = s"
  using assms by (induction es) (auto simp: removeUnusedEgressRule_def)

lemma removeUnusedEgressRules_id:
  assumes "distinct (map fst (policyMap m))"
    and "index_current m"
    and "set (policyMap m) \<subseteq> entry_of ` set (all_endpointAndCIDRs m)"
  shows "removeUnusedEgressRules e m = record_call MapIterate m"
proof -
  let ?m1 = "record_call MapIterate m"
  have p1: "policyMap ?m1 = policyMap m" "policyStore ?m1 = policyStore m"
    "policyConfigsBySourceIP ?m1 = policyConfigsBySourceIP m" "policyConfigs ?m1 = policyConfigs m"
    by (simp_all add: record_call_def)
  have S: "egressPolicies_of ?m1 = policyMap m"
    using egressPolicies_of_distinct [of ?m1] assms(1) by (simp add: p1)
  have i1: "index_current ?m1" using assms(2) by (simp add: index_current_cong [OF p1(2) p1(4) p1(3)])
  have T1: "all_endpointAndCIDRs ?m1 = all_endpointAndCIDRs m"
    by (rule all_endpointAndCIDRs_cong [OF p1(2) p1(4)])
  have "\<forall>(k, v) \<in> set (policyMap m). policyMatches ?m1 (SourceIP k) (matchPolicy k v)"
    using assms(3) by (auto simp: policyMatches_iff [OF i1] T1)
  then show ?thesis
    by (simp add: removeUnusedEgressRules_def Let_def S fold_removeUnusedEgressRule_id)
qed


lemma reconcileLocked_result:
  assumes "cacheStatus m"
    and "writes_succeed e"
    and "distinct (map fst (policyMap m))"
    and "index_fresh m"
  shows "set (policyMap (reconcileLocked e m)) \<subseteq> set (P1_entries (reconcileLocked e m))"
    and "fst ` set (P1_entries (reconcileLocked e m)) \<subseteq> fst ` set (policyMap (reconcileLocked e m))"
    and "distinct (map fst (policyMap (reconcileLocked e m)))"
    and "index_current (reconcileLocked e m)"
    and "gateways_current (reconcileLocked e m)"
    and "cacheStatus (reconcileLocked e m)"
    and "eventsBitmap (reconcileLocked e m) = 0"
proof -
  let ?m3 = "reconcile_refresh m"
  let ?m4 = "regenerateGatewayConfigs ?m3"
  let ?m7 = "reconcile_routes e ?m4"
  let ?m9 = "removeUnusedEgressRules e (addMissingEgressRules e ?m7)"
  have r: "reconcileLocked e m = ?m9\<lparr>eventsBitmap := 0\<rparr>"
    by (rule reconcileLocked_synchronized [OF assms(1)])
  have i7: "index_current ?m7" and p7: "policyMap ?m7 = policyMap m"
    by (rule before_policy_map_passes [OF assms(4)])+
  have s3: "same_caches m ?m3"
    using reconcile_refresh_only_policies [of m] by (simp add: only_policies_def)
  have s4: "same_caches ?m3 ?m4"
    using regenerateGatewayConfigs_only_store [of ?m3] by (simp add: only_store_def)
  have h7: "only_host isHostCall ?m4 ?m7" by (rule reconcile_routes_only_host)
  have "only_map (\<lambda>c. c = MapIterate \<or> isMapUpdate c) ?m7 (addMissingEgressRules e ?m7)"
    by (rule addMissingEgressRules_only_map)
  moreover have "only_map (\<lambda>c. c = MapIterate \<or> isMapDelete c) (addMissingEgressRules e ?m7) ?m9"
    by (rule removeUnusedEgressRules_only_map)
  ultimately have same: "policyStore ?m9 = policyStore ?m7" "policyConfigs ?m9 = policyConfigs ?m7"
    "policyConfigsBySourceIP ?m9 = policyConfigsBySourceIP ?m7" "nodes ?m9 = nodes ?m7"
    "cacheStatus ?m9 = cacheStatus ?m7"
    by (simp_all add: only_map_def same_caches_def)
  have P: "P1_entries (reconcileLocked e m) = P1_entries ?m7"
    unfolding r by (rule P1_entries_cong) (simp_all add: same)
  have d7: "distinct (map fst (policyMap ?m7))" using assms(3) by (simp add: p7)
  have sub: "set (policyMap ?m9) \<subseteq> entry_of ` set (all_endpointAndCIDRs ?m7)"
    and keys: "fst ` entry_of ` set (all_endpointAndCIDRs ?m7) \<subseteq> fst ` set (policyMap ?m9)"
    and d9: "distinct (map fst (policyMap ?m9))"
    by (rule policy_map_passes [OF assms(2) d7 i7])+
  have pm: "policyMap (reconcileLocked e m) = policyMap ?m9" by (simp add: r)
  show "set (policyMap (reconcileLocked e m)) \<subseteq> set (P1_entries (reconcileLocked e m))"
    unfolding pm P set_P1_entries by (rule sub)
  show "fst ` set (P1_entries (reconcileLocked e m)) \<subseteq> fst ` set (policyMap (reconcileLocked e m))"
    unfolding pm P set_P1_entries by (rule keys)
  show "distinct (map fst (policyMap (reconcileLocked e m)))"
    using d9 by (simp add: r)
  have "index_current (reconcileLocked e m) = index_current ?m7"
    unfolding r by (rule index_current_cong) (simp_all add: same)
  then show "index_current (reconcileLocked e m)" using i7 by simp
  have g4: "gateways_current ?m4" by (rule regenerateGatewayConfigs_gateways)
  have "gateways_current ?m7 = gateways_current ?m4"
    using h7 by (intro gateways_current_cong) (simp_all add: only_host_def same_caches_def)
  moreover have "gateways_current (reconcileLocked e m) = gateways_current ?m7"
    unfolding r by (rule gateways_current_cong) (simp_all add: same)
  ultimately show "gateways_current (reconcileLocked e m)" using g4 by simp
  show "cacheStatus (reconcileLocked e m)"
    using assms(1) s3 s4 h7 by (simp add: r same only_host_def same_caches_def)
  show "eventsBitmap (reconcileLocked e m) = 0" by (simp add: r)
qed

section \<open>The node store\<close>

lemma or_and_self_int: "((b::int) OR x) AND x = x"
  by (simp add: bit_eq_iff bit_and_iff bit_or_iff) blast

lemma nodeDataStore_ok_names:
  "nodeDataStore_ok m \<Longrightarrow> map Name (map snd (nodeDataStore m)) = map fst (nodeDataStore m)"
  by (auto simp: nodeDataStore_ok_def list_all_iff)

lemma list_all_AList_update:
  "list_all P al \<Longrightarrow> P (k, v) \<Longrightarrow> list_all P (AList.update k v al)"
  by (induction al) auto

lemma list_all_AList_delete:
  "list_all P al \<Longrightarrow> list_all P (AList.delete k al)"
  by (induction al) auto

lemma onChangeNodeLocked_store [simp]:
  "nodeDataStore (onChangeNodeLocked ev m) = nodeDataStore m"
  by (simp add: onChangeNodeLocked_def Let_def record_call_def setEventBitmap_def)

lemma onChangeNodeLocked_nodes [simp]:
  "nodes (onChangeNodeLocked ev m) = sort_key Name (map snd (nodeDataStore m))"
  by (simp add: onChangeNodeLocked_def Let_def record_call_def setEventBitmap_def)

lemma nodeDataStore_ok_onChange [simp]:
  "nodeDataStore_ok (onChangeNodeLocked ev m) = nodeDataStore_ok m"
  by (simp add: nodeDataStore_ok_def)

lemma nodeDataStore_ok_update:
  "nodeDataStore_ok m \<Longrightarrow>
   nodeDataStore_ok (m\<lparr>nodeDataStore := AList.update (Name node) node (nodeDataStore m)\<rparr>)"
  by (simp add: nodeDataStore_ok_def distinct_update list_all_AList_update)

lemma nodeDataStore_ok_delete:
  "nodeDataStore_ok m \<Longrightarrow>
   nodeDataStore_ok (m\<lparr>nodeDataStore := AList.delete k (nodeDataStore m)\<rparr>)"
  by (simp add: nodeDataStore_ok_def distinct_delete list_all_AList_delete)

lemma nodeDataStore_ok_new: "nodeDataStore_ok (NewEgressGatewayManager r)"
  by (simp add: nodeDataStore_ok_def NewEgressGatewayManager_def)

lemma distinct_map_sort_key:
  "distinct (map f (sort_key f xs)) = distinct (map f xs)"
  by (simp add: distinct_map)

lemma onChangeNodeLocked_sorted:
  assumes "nodeDataStore_ok m"
  shows "set (nodes (onChangeNodeLocked ev m)) = snd ` set (nodeDataStore m) \<and>
         length (nodes (onChangeNodeLocked ev m)) = length (nodeDataStore m) \<and>
         sorted_wrt (<) (map Name (nodes (onChangeNodeLocked ev m)))"
proof -
  let ?xs = "map snd (nodeDataStore m)"
  have "distinct (map fst (nodeDataStore m))"
    using assms by (simp add: nodeDataStore_ok_def)
  then have "distinct (map Name ?xs)"
    by (simp only: nodeDataStore_ok_names [OF assms])
  then have "distinct (map Name (sort_key Name ?xs))"
    by (simp only: distinct_map_sort_key)
  then have "sorted_wrt (<) (map Name (sort_key Name ?xs))"
    by (simp only: strict_sorted_iff sorted_sort_key simp_thms)
  then show ?thesis by simp
qed


section \<open>What holds in every state the manager reaches\<close>

lemma and_or_mono_int: "(b::int) AND x \<noteq> 0 \<Longrightarrow> (b OR e) AND x \<noteq> 0"
  by (simp add: bit.conj_disj_distrib2 or_eq_0_iff)

lemma eventBitmapIsSet_setEventBitmap:
  "eventBitmapIsSet m es \<Longrightarrow> eventBitmapIsSet (setEventBitmap [e] m) es"
  unfolding eventBitmapIsSet_def setEventBitmap_def list_ex_iff
  using and_or_mono_int by fastforce

lemma eventBitmapIsSet_grow:
  "eventsBitmap m' = eventsBitmap m OR e \<Longrightarrow> eventBitmapIsSet m es \<Longrightarrow> eventBitmapIsSet m' es"
  unfolding eventBitmapIsSet_def list_ex_iff
  using and_or_mono_int by fastforce

lemma index_fresh_cong:
  assumes "index_fresh m"
    and "policyStore m' = policyStore m" and "policyConfigs m' = policyConfigs m"
    and "policyConfigsBySourceIP m' = policyConfigsBySourceIP m"
    and "\<And>es. eventBitmapIsSet m es \<Longrightarrow> eventBitmapIsSet m' es"
  shows "index_fresh m'"
  using assms(1) assms(5) index_current_cong [OF assms(2) assms(3) assms(4)]
  by (auto simp: index_fresh_def)

lemma index_fresh_bit:
  "e \<in> {eventUpdateEndpoint, eventDeleteEndpoint, eventAddPolicy, eventDeletePolicy,
         eventK8sSyncDone} \<Longrightarrow> index_fresh (record_call c (setEventBitmap [e] m))"
  by (auto simp: index_fresh_def eventBitmapIsSet_def setEventBitmap_def record_call_def
      or_and_self_int eventUpdateEndpoint_def eventDeleteEndpoint_def eventAddPolicy_def
      eventDeletePolicy_def eventK8sSyncDone_def)

lemma reconcileLocked_current:
  assumes "cacheStatus m" and "index_fresh m"
  shows "index_current (reconcileLocked e m)"
proof -
  let ?m7 = "reconcile_routes e (regenerateGatewayConfigs (reconcile_refresh m))"
  let ?m9 = "removeUnusedEgressRules e (addMissingEgressRules e ?m7)"
  have r: "reconcileLocked e m = ?m9\<lparr>eventsBitmap := 0\<rparr>"
    by (rule reconcileLocked_synchronized [OF assms(1)])
  have i7: "index_current ?m7" by (rule before_policy_map_passes(1) [OF assms(2)])
  have "only_map (\<lambda>c. c = MapIterate \<or> isMapUpdate c) ?m7 (addMissingEgressRules e ?m7)"
    by (rule addMissingEgressRules_only_map)
  moreover have "only_map (\<lambda>c. c = MapIterate \<or> isMapDelete c) (addMissingEgressRules e ?m7) ?m9"
    by (rule removeUnusedEgressRules_only_map)
  ultimately have same: "policyStore ?m9 = policyStore ?m7" "policyConfigs ?m9 = policyConfigs ?m7"
    "policyConfigsBySourceIP ?m9 = policyConfigsBySourceIP ?m7"
    by (simp_all add: only_map_def same_caches_def)
  have "index_current (reconcileLocked e m) = index_current ?m7"
    unfolding r by (rule index_current_cong) (simp_all add: same)
  then show ?thesis using i7 by simp
qed

lemma policyMap_Update_distinct:
  "distinct (map fst (policyMap m)) \<Longrightarrow> distinct (map fst (policyMap (policyMap_Update e ip c eg gw m)))"
  by (simp add: policyMap_Update_def Let_def record_call_def distinct_update)

lemma policyMap_Delete_distinct:
  "distinct (map fst (policyMap m)) \<Longrightarrow> distinct (map fst (policyMap (policyMap_Delete e ip c m)))"
  by (simp add: policyMap_Delete_def Let_def record_call_def distinct_delete)

lemma addEgressRule_keeps_distinct:
  "distinct (map fst (policyMap m)) \<Longrightarrow> distinct (map fst (policyMap (addEgressRule e S t m)))"
  by (cases t) (simp add: addEgressRule_def Let_def policyMap_Update_distinct split: option.splits)

lemma removeUnusedEgressRule_keeps_distinct:
  "distinct (map fst (policyMap m)) \<Longrightarrow> distinct (map fst (policyMap (removeUnusedEgressRule e x m)))"
  by (cases x) (simp add: removeUnusedEgressRule_def policyMap_Delete_distinct)

lemma reconcileLocked_keeps_distinct:
  assumes "distinct (map fst (policyMap m))"
  shows "distinct (map fst (policyMap (reconcileLocked e m)))"
proof (cases "cacheStatus m")
  case False
  then show ?thesis using assms by (simp add: reconcileLocked_def)
next
  case True
  let ?D = "\<lambda>s s'. distinct (map fst (policyMap s)) \<longrightarrow> distinct (map fst (policyMap s'))"
  let ?m7 = "reconcile_routes e (regenerateGatewayConfigs (reconcile_refresh m))"
  let ?m8 = "addMissingEgressRules e ?m7"
  have p7: "policyMap ?m7 = policyMap m"
    using reconcile_routes_only_host [of "regenerateGatewayConfigs (reconcile_refresh m)" e]
      regenerateGatewayConfigs_only_store [of "reconcile_refresh m"]
      reconcile_refresh_only_policies [of m]
    by (simp add: only_host_def only_store_def only_policies_def)
  have a: "?D s (fold (addEgressRule e S) ts s)" for s S ts
    by (rule fold_rel [where R = ?D]) (auto simp: addEgressRule_keeps_distinct)
  have 8: "distinct (map fst (policyMap ?m8))"
    using a [of "record_call MapIterate ?m7"] assms
    by (simp add: addMissingEgressRules_flat p7 record_call_def)
  have b: "?D s (fold (removeUnusedEgressRule e) es s)" for s es
    by (rule fold_rel [where R = ?D]) (auto simp: removeUnusedEgressRule_keeps_distinct)
  have "distinct (map fst (policyMap (removeUnusedEgressRules e ?m8)))"
    using b [of "record_call MapIterate ?m8"] 8
    by (simp add: removeUnusedEgressRules_def Let_def record_call_def)
  then show ?thesis by (simp add: reconcileLocked_synchronized [OF True])
qed

lemma manager_ok_start:
  "distinct (map fst pm) \<Longrightarrow>
   manager_ok (NewEgressGatewayManager r\<lparr>policyMap := pm, hostRules := rs, hostRoutes := rts\<rparr>)"
  by (simp add: manager_ok_def index_fresh_def index_current_def bySourceIP_def
      nodeDataStore_ok_def NewEgressGatewayManager_def)

lemma manager_ok_OnAddEgressPolicy: "manager_ok m \<Longrightarrow> manager_ok (OnAddEgressPolicy config m)"
  unfolding manager_ok_def OnAddEgressPolicy_def Let_def
  by (intro conjI index_fresh_bit)
     (simp_all add: record_call_def setEventBitmap_def nodeDataStore_ok_def)

lemma manager_ok_OnDeleteEgressPolicy: "manager_ok m \<Longrightarrow> manager_ok (OnDeleteEgressPolicy configID m)"
proof (cases "map_of (policyConfigs m) configID")
  case None
  then show "manager_ok m \<Longrightarrow> ?thesis" by (simp add: OnDeleteEgressPolicy_def)
next
  case (Some a)
  assume "manager_ok m"
  then show ?thesis
    unfolding manager_ok_def OnDeleteEgressPolicy_def Let_def Some option.case
    by (intro conjI index_fresh_bit)
       (simp_all add: record_call_def setEventBitmap_def nodeDataStore_ok_def)
qed

lemma manager_ok_pending:
  "manager_ok m \<Longrightarrow> manager_ok (record_call c (m\<lparr>pendingEndpointEvents := p\<rparr>))"
  by (simp add: manager_ok_def index_fresh_def index_current_def bySourceIP_def
      eventBitmapIsSet_def nodeDataStore_ok_def record_call_def)

lemma manager_ok_record_call: "manager_ok m \<Longrightarrow> manager_ok (record_call c m)"
  by (simp add: manager_ok_def index_fresh_def index_current_def bySourceIP_def
      eventBitmapIsSet_def nodeDataStore_ok_def record_call_def)

lemma manager_ok_OnUpdateEndpoint: "manager_ok m \<Longrightarrow> manager_ok (OnUpdateEndpoint ep m)"
  by (simp add: OnUpdateEndpoint_def Let_def manager_ok_pending)

lemma manager_ok_OnDeleteEndpoint: "manager_ok m \<Longrightarrow> manager_ok (OnDeleteEndpoint ep m)"
  by (simp add: OnDeleteEndpoint_def Let_def manager_ok_pending)

lemma onChangeNodeLocked_fields:
  "policyStore (onChangeNodeLocked ev m) = policyStore m"
  "policyConfigs (onChangeNodeLocked ev m) = policyConfigs m"
  "policyConfigsBySourceIP (onChangeNodeLocked ev m) = policyConfigsBySourceIP m"
  "policyMap (onChangeNodeLocked ev m) = policyMap m"
  "eventsBitmap (onChangeNodeLocked ev m) = eventsBitmap m OR ev"
  by (simp_all add: onChangeNodeLocked_def Let_def record_call_def setEventBitmap_def)

lemma manager_ok_onChangeNodeLocked:
  assumes "index_fresh m" and "distinct (map fst (policyMap m))" and "nodeDataStore_ok m"
  shows "manager_ok (onChangeNodeLocked ev m)"
proof -
  have "index_fresh (onChangeNodeLocked ev m)"
    by (rule index_fresh_cong [OF assms(1) onChangeNodeLocked_fields(1-3)])
       (rule eventBitmapIsSet_grow [OF onChangeNodeLocked_fields(5)])
  then show ?thesis
    using assms(2) assms(3) by (simp add: manager_ok_def onChangeNodeLocked_fields)
qed

lemma manager_ok_node:
  assumes "manager_ok m" and "m' = OnUpdateNode node m \<or> m' = OnDeleteNode node m"
  shows "manager_ok m'"
proof -
  let ?u = "m\<lparr>nodeDataStore := AList.update (Name node) node (nodeDataStore m)\<rparr>"
  let ?d = "m\<lparr>nodeDataStore := AList.delete (Name node) (nodeDataStore m)\<rparr>"
  have f: "index_fresh m" and d: "distinct (map fst (policyMap m))" and n: "nodeDataStore_ok m"
    using assms(1) by (simp_all add: manager_ok_def)
  have fu: "index_fresh ?u" and fd: "index_fresh ?d"
    using f by (simp_all add: index_fresh_def index_current_def bySourceIP_def eventBitmapIsSet_def)
  have "manager_ok (onChangeNodeLocked eventUpdateNode ?u)"
    by (rule manager_ok_onChangeNodeLocked [OF fu _ nodeDataStore_ok_update [OF n]]) (simp add: d)
  moreover have "manager_ok (onChangeNodeLocked eventDeleteNode ?d)"
    by (rule manager_ok_onChangeNodeLocked [OF fd _ nodeDataStore_ok_delete [OF n]]) (simp add: d)
  ultimately show ?thesis
    using assms(2) by (auto simp: OnUpdateNode_def OnDeleteNode_def)
qed

lemma manager_ok_cacheStatus_closed: "manager_ok m \<Longrightarrow> manager_ok (cacheStatus_closed m)"
  by (simp add: cacheStatus_closed_def manager_ok_def index_fresh_def index_current_def
      bySourceIP_def eventBitmapIsSet_def nodeDataStore_ok_def)

lemma manager_ok_sync: "manager_ok m \<Longrightarrow> manager_ok (runReconciliationAfterK8sSync m)"
proof (cases "cacheStatus m")
  case True
  assume "manager_ok m"
  then show ?thesis
    unfolding manager_ok_def runReconciliationAfterK8sSync_def if_P [OF True]
    by (intro conjI index_fresh_bit)
       (simp_all add: record_call_def setEventBitmap_def nodeDataStore_ok_def)
next
  case False
  then show "manager_ok m \<Longrightarrow> ?thesis" by (simp add: runReconciliationAfterK8sSync_def)
qed

lemma manager_ok_deleteEndpoint: "manager_ok m \<Longrightarrow> manager_ok (deleteEndpoint ident m)"
  unfolding manager_ok_def deleteEndpoint_def Let_def
  by (intro conjI index_fresh_bit)
     (simp_all add: record_call_def setEventBitmap_def nodeDataStore_ok_def)

lemma manager_ok_addEndpoint:
  assumes "manager_ok m" and "addEndpoint e ident m = Inr m'"
  shows "manager_ok m'"
proof (cases "pendingEndpointEvents m ident")
  case None
  then show ?thesis using assms by (simp add: addEndpoint_def)
next
  case (Some epEvent)
  note ev = Some
  show ?thesis
  proof (cases "endpoint epEvent")
    case None
    then show ?thesis using assms(2) ev by (simp add: addEndpoint_def)
  next
    case (Some ep)
    note ep = Some
    show ?thesis
    proof (cases "Identity ep")
      case None
      then show ?thesis using assms(2) ev ep by (simp add: addEndpoint_def)
    next
      case (Some identity)
      note idn = Some
      show ?thesis
      proof (cases "getIdentityLabels e (ID identity mod 2 ^ 32)")
        case (Inl err)
        then show ?thesis using assms ev ep idn by (simp add: addEndpoint_def)
      next
        case (Inr identityLabels)
        note lb = Inr
        let ?m1 = "m\<lparr>pendingEndpointEvents := (pendingEndpointEvents m)(ident := None)\<rparr>"
        have ok1: "manager_ok ?m1"
          using assms(1)
          by (simp add: manager_ok_def index_fresh_def index_current_def bySourceIP_def
              eventBitmapIsSet_def nodeDataStore_ok_def)
        show ?thesis
        proof (cases "getEndpointMetadata e ep identityLabels")
          case (Inl err)
          then have "m' = ?m1" using assms(2) ev ep idn lb by (simp add: addEndpoint_def)
          then show ?thesis using ok1 by simp
        next
          case (Inr epData)
          let ?m2 = "?m1\<lparr>epDataStore := AList.update (endpoint_id epData) epData (epDataStore ?m1)\<rparr>"
          have m': "m' = record_call (TriggerWithReason ''endpoint updated'')
                          (setEventBitmap [eventUpdateEndpoint] ?m2)"
            using assms(2) ev ep idn lb Inr by (simp add: addEndpoint_def Let_def)
          show ?thesis
            using assms(1) unfolding manager_ok_def m'
            by (intro conjI index_fresh_bit)
               (simp_all add: record_call_def setEventBitmap_def nodeDataStore_ok_def)
        qed
      qed
    qed
  qed
qed

lemma manager_ok_worker_requeue: "manager_ok m \<Longrightarrow> manager_ok (worker_requeue ident m)"
  by (simp add: worker_requeue_def manager_ok_record_call)

lemma manager_ok_worker_dispatch:
  assumes "manager_ok m" and "worker_dispatch e found ident m = Inr m'"
  shows "manager_ok m'"
proof (cases found)
  case None
  then show ?thesis using assms by (auto simp: worker_dispatch_def manager_ok_worker_requeue)
next
  case (Some epEvent)
  show ?thesis
  proof (cases "addEndpoint e ident m")
    case (Inl err)
    then show ?thesis
      using assms Some
      by (auto simp: worker_dispatch_def manager_ok_worker_requeue manager_ok_deleteEndpoint
          split: if_splits)
  next
    case (Inr m1)
    then have "manager_ok m1" by (rule manager_ok_addEndpoint [OF assms(1)])
    then show ?thesis
      using assms Some Inr
      by (auto simp: worker_dispatch_def manager_ok_worker_requeue manager_ok_deleteEndpoint
          split: if_splits)
  qed
qed

lemma manager_ok_reconcileLocked:
  assumes "manager_ok m"
  shows "manager_ok (reconcileLocked e m)"
proof -
  have d: "distinct (map fst (policyMap (reconcileLocked e m)))"
    using assms by (simp add: manager_ok_def reconcileLocked_keeps_distinct)
  have f: "index_fresh (reconcileLocked e m)"
  proof (cases "cacheStatus m")
    case True
    then show ?thesis
      using assms by (simp add: manager_ok_def index_fresh_def reconcileLocked_current)
  next
    case False
    then show ?thesis using assms by (simp add: manager_ok_def reconcileLocked_def)
  qed
  have n: "nodeDataStore_ok (reconcileLocked e m)"
  proof (cases "cacheStatus m")
    case True
    let ?m3 = "reconcile_refresh m"
    let ?m4 = "regenerateGatewayConfigs ?m3"
    let ?m7 = "reconcile_routes e ?m4"
    let ?m8 = "addMissingEgressRules e ?m7"
    have "nodeDataStore (removeUnusedEgressRules e ?m8) = nodeDataStore m"
      using reconcile_refresh_only_policies [of m] regenerateGatewayConfigs_only_store [of ?m3]
        reconcile_routes_only_host [of ?m4 e] addMissingEgressRules_only_map [of ?m7 e]
        removeUnusedEgressRules_only_map [of ?m8 e]
      by (simp add: only_policies_def only_store_def only_host_def only_map_def same_caches_def)
    then show ?thesis
      using assms by (simp add: manager_ok_def nodeDataStore_ok_def reconcileLocked_synchronized [OF True])
  next
    case False
    then show ?thesis using assms by (simp add: manager_ok_def reconcileLocked_def)
  qed
  show ?thesis using d f n by (simp add: manager_ok_def)
qed

lemma reachable_manager_ok: "reachable m \<Longrightarrow> manager_ok m"
proof (induction rule: reachable.induct)
  case (start pm r rs rts)
  then show ?case by (rule manager_ok_start)
next
  case (update_node m node)
  then show ?case by (auto intro: manager_ok_node)
next
  case (delete_node m node)
  then show ?case by (auto intro: manager_ok_node)
qed (auto intro: manager_ok_OnAddEgressPolicy manager_ok_OnDeleteEgressPolicy
       manager_ok_OnUpdateEndpoint manager_ok_OnDeleteEndpoint manager_ok_sync
       manager_ok_cacheStatus_closed
       manager_ok_worker_dispatch manager_ok_reconcileLocked)

lemma reachable_new: "reachable (NewEgressGatewayManager r)"
proof -
  have "reachable (NewEgressGatewayManager r\<lparr>policyMap := [], hostRules := [], hostRoutes := []\<rparr>)"
    by (rule reachable.start) simp
  then show ?thesis by (simp add: NewEgressGatewayManager_def)
qed

lemma scenario_reachable: "reachable (scenario r dst excl)"
proof -
  let ?m1 = "OnAddEgressPolicy (policy_P dst excl) (NewEgressGatewayManager r)"
  let ?m2 = "OnUpdateEndpoint endpoint_E ?m1"
  have 2: "reachable ?m2"
    by (intro reachable.update_endpoint reachable.add_policy reachable_new)
  have "\<exists>m3. worker_round env_ok (''default'', ''e'') ?m2 = Inr m3"
    by (simp add: worker_round_def worker_lookup_def worker_dispatch_def OnUpdateEndpoint_def
        Let_def record_call_def endpoint_E_def addEndpoint_def getIdentityLabels_def
        getEndpointMetadata_def env_ok_def)
  then obtain m3 where 3: "worker_round env_ok (''default'', ''e'') ?m2 = Inr m3" by auto
  then have "reachable m3"
    unfolding worker_round_def by (rule reachable.worker [OF 2])
  then have "reachable (runReconciliationAfterK8sSync (cacheStatus_closed m3))"
    by (intro reachable.sync_done reachable.synchronized)
  then show ?thesis by (simp add: scenario_def Let_def 3)
qed

lemma writes_succeed_env_ok: "writes_succeed env_ok"
  by (simp add: writes_succeed_def env_ok_def)

lemma pending_ok_cong:
  "pendingEndpointEvents m' = pendingEndpointEvents m \<Longrightarrow> pending_ok m' = pending_ok m"
  by (simp add: pending_ok_def)

lemma pending_ok_remove:
  "pending_ok m \<Longrightarrow> pendingEndpointEvents m' = (pendingEndpointEvents m)(ident := None) \<Longrightarrow>
   pending_ok m'"
  by (simp add: pending_ok_def)

lemma reconcileLocked_pending:
  "pendingEndpointEvents (reconcileLocked e m) = pendingEndpointEvents m"
proof (cases "cacheStatus m")
  case False
  then show ?thesis by (simp add: reconcileLocked_def)
next
  case True
  let ?m3 = "reconcile_refresh m"
  let ?m4 = "regenerateGatewayConfigs ?m3"
  let ?m7 = "reconcile_routes e ?m4"
  let ?m8 = "addMissingEgressRules e ?m7"
  have "pendingEndpointEvents (removeUnusedEgressRules e ?m8) = pendingEndpointEvents m"
    using reconcile_refresh_only_policies [of m] regenerateGatewayConfigs_only_store [of ?m3]
      reconcile_routes_only_host [of ?m4 e] addMissingEgressRules_only_map [of ?m7 e]
      removeUnusedEgressRules_only_map [of ?m8 e]
    by (simp add: only_policies_def only_store_def only_host_def only_map_def same_caches_def)
  then show ?thesis by (simp add: reconcileLocked_synchronized [OF True])
qed

lemma addEndpoint_pending:
  assumes "addEndpoint e ident m = Inr m'"
  shows "pendingEndpointEvents m' = pendingEndpointEvents m \<or>
         pendingEndpointEvents m' = (pendingEndpointEvents m)(ident := None)"
  using assms
  by (auto simp: addEndpoint_def Let_def record_call_def setEventBitmap_def
      split: option.splits sum.splits)

lemma worker_requeue_pending:
  "pendingEndpointEvents (worker_requeue ident m) = pendingEndpointEvents m"
  by (simp add: worker_requeue_def record_call_def)

lemma deleteEndpoint_pending:
  "pendingEndpointEvents (deleteEndpoint ident m) = (pendingEndpointEvents m)(ident := None)"
  by (simp add: deleteEndpoint_def Let_def record_call_def setEventBitmap_def)

lemma pending_ok_worker_dispatch:
  assumes "pending_ok m" and "worker_dispatch e found ident m = Inr m'"
  shows "pending_ok m'"
proof -
  have "pendingEndpointEvents m' = pendingEndpointEvents m \<or>
        pendingEndpointEvents m' = (pendingEndpointEvents m)(ident := None)"
  proof (cases found)
    case None
    then show ?thesis using assms(2) by (auto simp: worker_dispatch_def worker_requeue_pending)
  next
    case (Some epEvent)
    show ?thesis
    proof (cases "addEndpoint e ident m")
      case (Inl err)
      then show ?thesis
        using assms(2) Some
        by (auto simp: worker_dispatch_def worker_requeue_pending deleteEndpoint_pending
            split: if_splits)
    next
      case (Inr m1)
      then show ?thesis
        using assms(2) Some addEndpoint_pending [OF Inr]
        by (auto simp: worker_dispatch_def worker_requeue_pending deleteEndpoint_pending
            split: if_splits)
    qed
  qed
  then show ?thesis
  proof
    assume "pendingEndpointEvents m' = pendingEndpointEvents m"
    then show ?thesis using assms(1) by (simp add: pending_ok_def)
  next
    assume "pendingEndpointEvents m' = (pendingEndpointEvents m)(ident := None)"
    with assms(1) show ?thesis by (rule pending_ok_remove)
  qed
qed

lemma reachable_pending_ok: "reachable m \<Longrightarrow> pending_ok m"
proof (induction rule: reachable.induct)
  case (start pm r rs rts)
  show ?case by (simp add: pending_ok_def NewEgressGatewayManager_def)
next
  case (add_policy m config)
  then show ?case
    by (simp add: pending_ok_def OnAddEgressPolicy_def Let_def record_call_def setEventBitmap_def)
next
  case (delete_policy m configID)
  then show ?case
    by (simp add: pending_ok_def OnDeleteEgressPolicy_def Let_def record_call_def
        setEventBitmap_def split: option.splits)
next
  case (update_endpoint m ep)
  then show ?case
    by (simp add: pending_ok_def OnUpdateEndpoint_def Let_def record_call_def)
next
  case (delete_endpoint m ep)
  then show ?case
    by (simp add: pending_ok_def OnDeleteEndpoint_def Let_def record_call_def)
next
  case (update_node m node)
  then show ?case
    by (simp add: pending_ok_def OnUpdateNode_def onChangeNodeLocked_def Let_def record_call_def
        setEventBitmap_def)
next
  case (delete_node m node)
  then show ?case
    by (simp add: pending_ok_def OnDeleteNode_def onChangeNodeLocked_def Let_def record_call_def
        setEventBitmap_def)
next
  case (synchronized m)
  then show ?case by (simp add: pending_ok_def cacheStatus_closed_def)
next
  case (sync_done m)
  then show ?case
    by (simp add: pending_ok_def runReconciliationAfterK8sSync_def record_call_def
        setEventBitmap_def)
next
  case (worker m e found ident m')
  then show ?case by (auto intro: pending_ok_worker_dispatch)
next
  case (reconcile m e)
  then show ?case by (simp add: pending_ok_cong [OF reconcileLocked_pending])
qed


section \<open>The writes of a second run\<close>

lemma set_update_subset: "set (AList.update k v al) \<subseteq> insert (k, v) (set al)"
  by (induction al) auto

lemma addEgressRule_calls:
  "calls (addEgressRule e S t s) =
     calls s @ (if map_of S (fst (entry_of t)) = Some (snd (entry_of t)) then []
                else [MapUpdate (fst (entry_of t)) (snd (entry_of t))])"
proof -
  obtain ip c excl gwc where t: "t = (ip, c, excl, gwc)" by (cases t) auto
  show ?thesis
    by (auto simp: t addEgressRule_def entry_of_def Let_def NewEgressPolicyKey4_eta val_Match_eq
        policyMap_Update_def record_call_def split: option.splits)
qed

lemma addEgressRule_within:
  assumes "set (policyMap s) \<subseteq> E" and "entry_of t \<in> E"
  shows "set (policyMap (addEgressRule e S t s)) \<subseteq> E"
proof -
  obtain ip c excl gwc where t: "t = (ip, c, excl, gwc)" by (cases t) auto
  have "policyMap (addEgressRule e S t s) = policyMap s \<or>
        policyMap (addEgressRule e S t s) =
          AList.update (fst (entry_of t)) (snd (entry_of t)) (policyMap s)"
    by (auto simp: t addEgressRule_def entry_of_def Let_def NewEgressPolicyKey4_eta
        policyMap_Update_def record_call_def split: option.splits)
  then show ?thesis
    using assms set_update_subset [of "fst (entry_of t)" "snd (entry_of t)" "policyMap s"]
    by auto
qed

lemma fold_addEgressRule_within:
  assumes "set (policyMap s) \<subseteq> E" and "entry_of ` set ts \<subseteq> E"
  shows "set (policyMap (fold (addEgressRule e S) ts s)) \<subseteq> E"
  using assms
proof (induction ts arbitrary: s)
  case Nil
  then show ?case by simp
next
  case (Cons t ts)
  have "set (policyMap (addEgressRule e S t s)) \<subseteq> E"
    by (rule addEgressRule_within) (use Cons.prems in auto)
  then show ?case using Cons.prems by (simp add: Cons.IH)
qed

lemma fold_addEgressRule_calls:
  "calls (fold (addEgressRule e S) ts s) =
     calls s @ map (\<lambda>t. MapUpdate (fst (entry_of t)) (snd (entry_of t)))
                 (filter (\<lambda>t. map_of S (fst (entry_of t)) \<noteq> Some (snd (entry_of t))) ts)"
  by (induction ts arbitrary: s) (simp_all add: addEgressRule_calls)

lemma reconcileLocked_settled:
  assumes "cacheStatus m"
    and "eventsBitmap m = 0"
    and "index_current m"
    and "gateways_current m"
    and "distinct (map fst (policyMap m))"
    and "set (policyMap m) \<subseteq> set (P1_entries m)"
    and "fst ` set (P1_entries m) \<subseteq> fst ` set (policyMap m)"
  shows "calls_extend (rewrite_of_conflict m) m (reconcileLocked e m)"
proof -
  let ?P = "rewrite_of_conflict m"
  define E where "E = entry_of ` set (all_endpointAndCIDRs m)"
  have E: "set (P1_entries m) = E" by (simp add: E_def set_P1_entries)
  let ?m7 = "reconcile_routes e m"
  let ?m0 = "record_call MapIterate ?m7"
  let ?m8 = "addMissingEgressRules e ?m7"
  let ?m9 = "record_call MapIterate ?m8"
  have h7: "only_host isHostCall m ?m7" by (rule reconcile_routes_only_host)
  then have same: "policyStore ?m7 = policyStore m" "policyConfigs ?m7 = policyConfigs m"
    "policyConfigsBySourceIP ?m7 = policyConfigsBySourceIP m" "policyMap ?m7 = policyMap m"
    by (simp_all add: only_host_def same_caches_def)
  have T7: "all_endpointAndCIDRs ?m7 = all_endpointAndCIDRs m"
    by (rule all_endpointAndCIDRs_cong [OF same(1) same(2)])
  have d7: "distinct (map fst (policyMap ?m7))" using assms(5) by (simp add: same)
  have S: "egressPolicies_of ?m7 = policyMap m"
    using egressPolicies_of_distinct [OF d7] by (simp add: same)
  have a: "?m8 = fold (addEgressRule e (policyMap m)) (all_endpointAndCIDRs m) ?m0"
    by (simp add: addMissingEgressRules_flat S T7)
  have p0: "policyMap ?m0 = policyMap m" by (simp add: record_call_def same)
  have E8: "set (policyMap ?m8) \<subseteq> E"
    unfolding a
    by (rule fold_addEgressRule_within) (use assms(6) in \<open>simp_all add: p0 E E_def\<close>)
  have c8: "calls ?m8 = calls ?m7 @ MapIterate #
              map (\<lambda>t. MapUpdate (fst (entry_of t)) (snd (entry_of t)))
                (filter (\<lambda>t. map_of (policyMap m) (fst (entry_of t)) \<noteq> Some (snd (entry_of t)))
                   (all_endpointAndCIDRs m))"
    unfolding a by (simp add: fold_addEgressRule_calls record_call_def)
  have u: "?P (MapUpdate (fst (entry_of t)) (snd (entry_of t)))"
    if t: "t \<in> set (all_endpointAndCIDRs m)"
      and n: "map_of (policyMap m) (fst (entry_of t)) \<noteq> Some (snd (entry_of t))" for t
  proof -
    obtain k v where kv: "entry_of t = (k, v)" by (cases "entry_of t") auto
    have in_E: "(k, v) \<in> E" using t kv unfolding E_def by force
    then have "k \<in> fst ` set (policyMap m)" using assms(7) unfolding E by force
    then obtain v' where v': "(k, v') \<in> set (policyMap m)" by auto
    then have "map_of (policyMap m) k = Some v'" using assms(5) by simp
    then have "v' \<noteq> v" using n by (auto simp: kv)
    moreover have "(k, v') \<in> E" using v' assms(6) unfolding E by auto
    ultimately show ?thesis
      using in_E by (auto simp: rewrite_of_conflict_def kv E)
  qed
  have 8: "calls_extend ?P ?m7 ?m8"
    unfolding calls_extend_def c8
    by (auto simp: list_all_iff rewrite_of_conflict_def [of m MapIterate] u)
  have same8: "policyStore ?m8 = policyStore ?m7" "policyConfigs ?m8 = policyConfigs ?m7"
    "policyConfigsBySourceIP ?m8 = policyConfigsBySourceIP ?m7"
    using addMissingEgressRules_only_map [of ?m7 e] by (simp_all add: only_map_def same_caches_def)
  have i8: "index_current ?m8"
    using assms(3)
    by (simp add: index_current_cong [OF same8] index_current_cong [OF same(1) same(2) same(3)])
  have D: "distinct (map fst (policyMap s)) \<longrightarrow>
           distinct (map fst (policyMap (fold (addEgressRule e (policyMap m)) ts s)))" for s ts
    by (rule fold_rel [where R = "\<lambda>s s'. distinct (map fst (policyMap s)) \<longrightarrow>
           distinct (map fst (policyMap s'))"]) (auto simp: addEgressRule_keeps_distinct)
  have d8: "distinct (map fst (policyMap ?m8))"
    unfolding a using D [of ?m0] assms(5) by (simp add: p0)
  have T8: "all_endpointAndCIDRs ?m8 = all_endpointAndCIDRs m"
    using all_endpointAndCIDRs_cong [OF same8(1) same8(2)] T7 by simp
  have b: "removeUnusedEgressRules e ?m8 = ?m9"
    by (rule removeUnusedEgressRules_id [OF d8 i8]) (use E8 in \<open>simp add: T8 E_def\<close>)
  have r: "reconcileLocked e m = ?m9\<lparr>eventsBitmap := 0\<rparr>"
    by (simp add: reconcileLocked_synchronized [OF assms(1)] reconcile_refresh_id [OF assms(2)]
          regenerateGatewayConfigs_id [OF assms(4)] b)
  have 7: "calls_extend ?P m ?m7"
    using h7
    by (auto simp: only_host_def isHostCall_def rewrite_of_conflict_def intro: calls_extend_mono
          split: call.splits)
  have 9: "calls_extend ?P ?m8 ?m9"
    by (rule calls_extend_record) (simp add: rewrite_of_conflict_def)
  have "calls_extend ?P m ?m9"
    by (rule calls_extend_trans [OF calls_extend_trans [OF 7 8] 9])
  then show ?thesis by (simp add: r calls_extend_def)
qed

section \<open>Policy deletion\<close>

text \<open>
  Claim C7. \<open>OnDeleteEgressPolicy\<close> with a policy id that \<open>policyConfigs\<close> does not have
  returns the manager as it was: \<open>policyConfigs\<close>, \<open>policyConfigsBySourceIP\<close> and the
  events bitmap are unchanged, and the trace has no new call, so the trigger did not fire.
\<close>

theorem OnDeleteEgressPolicy_unknown_id:
  "map_of (policyConfigs m) configID = None \<Longrightarrow> OnDeleteEgressPolicy configID m = m"
  by (simp add: OnDeleteEgressPolicy_def)

theorem OnDeleteEgressPolicy_unknown_id_witness:
  "map_of (policyConfigs (NewEgressGatewayManager False)) (''default'', ''p1'') = None \<and>
   OnDeleteEgressPolicy (''default'', ''p1'') (NewEgressGatewayManager False)
     = NewEgressGatewayManager False"
  using OnDeleteEgressPolicy_unknown_id [of "NewEgressGatewayManager False" "(''default'', ''p1'')"]
  by (simp add: NewEgressGatewayManager_def)

section \<open>Reconciliation before the initial sync\<close>

text \<open>
  Claim C9. While the cache status is not synchronized, \<open>reconcileLocked\<close> returns the
  manager as it was: no call to the policy map or to the host's rules and routes, no
  rebuild of \<open>policyConfigsBySourceIP\<close> or of the matched endpoints, and the events bitmap
  is not cleared.
\<close>

theorem reconcileLocked_not_synchronized:
  "\<not> cacheStatus m \<Longrightarrow> reconcileLocked e m = m"
  by (simp add: reconcileLocked_def)

theorem reconcileLocked_not_synchronized_witness:
  "\<not> cacheStatus (OnAddEgressPolicy (policy_P [cidr_1_2_3_0_24] []) (NewEgressGatewayManager False)) \<and>
   eventsBitmap (reconcileLocked env_ok
      (OnAddEgressPolicy (policy_P [cidr_1_2_3_0_24] []) (NewEgressGatewayManager False))) = 4"
proof -
  let ?m = "OnAddEgressPolicy (policy_P [cidr_1_2_3_0_24] []) (NewEgressGatewayManager False)"
  have n: "\<not> cacheStatus ?m"
    by (simp add: OnAddEgressPolicy_def NewEgressGatewayManager_def Let_def record_call_def
        setEventBitmap_def)
  have "eventsBitmap ?m = 4"
    by (simp add: OnAddEgressPolicy_def NewEgressGatewayManager_def Let_def record_call_def
        setEventBitmap_def eventAddPolicy_def)
  then show ?thesis
    using n reconcileLocked_not_synchronized [OF n, of env_ok] by simp
qed

section \<open>Endpoint events\<close>

text \<open>
  The outcomes of \<open>addEndpoint\<close> on a pending entry whose endpoint and identity are
  there, in every state the manager reaches. If the identity labels cannot be had (the
  wait fails, or the lookup returns nil), the manager is unchanged: the entry stays
  pending, so the worker adds the id back to the queue with \<open>AddRateLimited\<close>, and
  \<open>epDataStore\<close> is as before. If the labels are found, the entry is deleted; then, if
  the metadata cannot be built, \<open>epDataStore\<close>, the bitmap and the trace are as before
  and the worker forgets the id; if it can, \<open>epDataStore\<close> holds the metadata under the
  id, the \<open>eventUpdateEndpoint\<close> bit is set and the trigger fires.
\<close>

lemma addEndpoint_outcomes:
  assumes "reachable m"
    and "pendingEndpointEvents m ident = Some epEvent"
    and "endpoint epEvent = Some ep"
    and "Identity ep = Some identity"
  shows "case getIdentityLabels e (ID identity mod 2 ^ 32) of
           Inl err \<Rightarrow>
             addEndpoint e ident m = Inr m \<and> endpointEventIsPending m ident \<and>
             calls_since m (worker_requeue ident m) = [QueueAddRateLimited ident, QueueDone ident]
         | Inr identityLabels \<Rightarrow>
             (case getEndpointMetadata e ep identityLabels of
                Inl err \<Rightarrow>
                  (\<exists>m'. addEndpoint e ident m = Inr m' \<and>
                     pendingEndpointEvents m' = (pendingEndpointEvents m)(ident := None) \<and>
                     epDataStore m' = epDataStore m \<and> eventsBitmap m' = eventsBitmap m \<and>
                     calls m' = calls m \<and>
                     calls_since m (worker_requeue ident m') = [QueueForget ident, QueueDone ident])
              | Inr epData \<Rightarrow>
                  (\<exists>m'. addEndpoint e ident m = Inr m' \<and>
                     pendingEndpointEvents m' = (pendingEndpointEvents m)(ident := None) \<and>
                     map_of (epDataStore m') ident = Some epData \<and>
                     eventBitmapIsSet m' [eventUpdateEndpoint] \<and>
                     calls m' = calls m @ [TriggerWithReason ''endpoint updated'']))"
proof -
  have "ident = (ep_Namespace ep, ep_Name ep)"
    using reachable_pending_ok [OF assms(1)] assms(2) assms(3)
    unfolding pending_ok_def by blast
  then show ?thesis
    using assms(2) assms(3) assms(4)
    by (auto simp: addEndpoint_def endpointEventIsPending_def calls_since_def worker_requeue_def
        record_call_def getEndpointMetadata_def Let_def eventBitmapIsSet_def setEventBitmap_def
        or_and_self_int eventUpdateEndpoint_def update_conv'
        split: sum.splits if_splits)
qed

text \<open>
  Claim C8 gives \<open>addEndpoint\<close> three outcomes on every pending entry it finds: the
  entry is kept for a retry, or it is dropped, or the metadata is stored. The code has a
  fourth. \<open>OnUpdateEndpoint\<close> stores whatever endpoint the watcher hands it; when the
  \<open>Identity\<close> of that endpoint is nil, the worker finds the entry, calls \<open>addEndpoint\<close>,
  and \<open>addEndpoint\<close> panics on \<open>endpoint.Identity.ID\<close> before the identity lookup: the
  entry is neither retried nor dropped, and nothing is stored. This holds for every
  endpoint, manager and environment.
\<close>

theorem addEndpoint_nil_identity:
  "worker_lookup (OnUpdateEndpoint (ep\<lparr>Identity := None\<rparr>) m) (ep_Namespace ep, ep_Name ep)
     = Some \<lparr>eventType = eventUpdateEndpoint, endpoint = Some (ep\<lparr>Identity := None\<rparr>)\<rparr> \<and>
   addEndpoint e (ep_Namespace ep, ep_Name ep) (OnUpdateEndpoint (ep\<lparr>Identity := None\<rparr>) m)
     = Inl NilPointerDereference \<and>
   worker_round e (ep_Namespace ep, ep_Name ep) (OnUpdateEndpoint (ep\<lparr>Identity := None\<rparr>) m)
     = Inl NilPointerDereference"
  by (simp add: worker_round_def worker_dispatch_def worker_lookup_def OnUpdateEndpoint_def
      record_call_def addEndpoint_def Let_def)

text \<open>
  Claim C10 asks that \<open>addEndpoint\<close> never finds a pending entry whose endpoint is nil.
  The code does not keep that: the worker reads the pending update and releases the lock;
  \<open>OnDeleteEndpoint\<close>, which needs only the lock of the pending events, then overwrites
  the entry with a delete event that has no endpoint; the dispatch on the update that the
  worker read calls \<open>addEndpoint\<close>, which finds the entry and dereferences nil.
\<close>

theorem worker_dispatch_nil_endpoint:
  "worker_dispatch e (worker_lookup (OnUpdateEndpoint ep m) (ep_Namespace ep, ep_Name ep))
     (ep_Namespace ep, ep_Name ep) (OnDeleteEndpoint ep (OnUpdateEndpoint ep m))
   = Inl NilPointerDereference"
  by (simp add: worker_dispatch_def worker_lookup_def OnUpdateEndpoint_def OnDeleteEndpoint_def
      record_call_def addEndpoint_def Let_def)

section \<open>Node events\<close>

text \<open>
  Claim C6. In every state the manager reaches, after \<open>OnUpdateNode\<close> or
  \<open>OnDeleteNode\<close> the \<open>nodes\<close> slice holds exactly the values of \<open>nodeDataStore\<close>
  (the same set, and as many), sorted strictly ascending by name.
\<close>

theorem node_events_keep_nodes_sorted:
  assumes "reachable m" and "m' = OnUpdateNode node m \<or> m' = OnDeleteNode node m"
  shows "set (nodes m') = snd ` set (nodeDataStore m') \<and>
         length (nodes m') = length (nodeDataStore m') \<and>
         sorted_wrt (<) (map Name (nodes m'))"
proof -
  have ok: "nodeDataStore_ok m"
    using reachable_manager_ok [OF assms(1)] by (simp add: manager_ok_def)
  let ?u = "m\<lparr>nodeDataStore := AList.update (Name node) node (nodeDataStore m)\<rparr>"
  let ?d = "m\<lparr>nodeDataStore := AList.delete (Name node) (nodeDataStore m)\<rparr>"
  have u: "nodeDataStore_ok ?u" by (rule nodeDataStore_ok_update [OF ok])
  have d: "nodeDataStore_ok ?d" by (rule nodeDataStore_ok_delete [OF ok])
  from assms(2) show ?thesis
  proof
    assume "m' = OnUpdateNode node m"
    then have m': "m' = onChangeNodeLocked eventUpdateNode ?u" by (simp add: OnUpdateNode_def)
    show ?thesis
      unfolding m' using onChangeNodeLocked_sorted [OF u, of eventUpdateNode]
      by (simp del: onChangeNodeLocked_nodes)
  next
    assume "m' = OnDeleteNode node m"
    then have m': "m' = onChangeNodeLocked eventDeleteNode ?d" by (simp add: OnDeleteNode_def)
    show ?thesis
      unfolding m' using onChangeNodeLocked_sorted [OF d, of eventDeleteNode]
      by (simp del: onChangeNodeLocked_nodes)
  qed
qed

theorem node_events_keep_nodes_sorted_witness:
  "reachable (OnUpdateNode \<lparr>Name = ''b'', NodeIPs = []\<rparr> (NewEgressGatewayManager False)) \<and>
   map Name (nodes (OnUpdateNode \<lparr>Name = ''a'', NodeIPs = []\<rparr>
               (OnUpdateNode \<lparr>Name = ''b'', NodeIPs = []\<rparr> (NewEgressGatewayManager False))))
     = [''a'', ''b''] \<and>
   sorted_wrt (<) [''a'', ''b'']"
proof -
  let ?a = "\<lparr>Name = ''a'', NodeIPs = []\<rparr>"
  let ?b = "\<lparr>Name = ''b'', NodeIPs = []\<rparr>"
  let ?m0 = "NewEgressGatewayManager False"
  have r: "reachable (OnUpdateNode ?b ?m0)"
    by (intro reachable.update_node reachable_new)
  have eq: "map Name (nodes (OnUpdateNode ?a (OnUpdateNode ?b ?m0))) = [''a'', ''b'']"
    by (simp add: OnUpdateNode_def NewEgressGatewayManager_def)
  have "sorted_wrt (<) (map Name (nodes (OnUpdateNode ?a (OnUpdateNode ?b ?m0))))"
    using node_events_keep_nodes_sorted
      [OF r, where m' = "OnUpdateNode ?a (OnUpdateNode ?b ?m0)" and node = ?a]
    by simp
  then show ?thesis using r eq by simp
qed

section \<open>Order of the writes to the policy map\<close>

text \<open>
  Claim C2. The calls one run of \<open>reconcileLocked\<close> adds to the trace have no \<open>Delete\<close>
  on the policy map before an \<open>Update\<close> on it: the pass that adds the missing entries is
  over before the pass that removes the unused ones begins. This holds whether the writes
  succeed or fail.
\<close>

theorem reconcileLocked_updates_before_deletes:
  "calls (reconcileLocked e m) = calls m @ calls_since m (reconcileLocked e m) \<and>
   sorted_wrt (\<lambda>c c'. \<not> (isMapDelete c \<and> isMapUpdate c')) (calls_since m (reconcileLocked e m))"
proof (cases "cacheStatus m")
  case False
  then show ?thesis by (simp add: reconcileLocked_def calls_since_def)
next
  case True
  let ?m8 = "addMissingEgressRules e (reconcile_routes e (regenerateGatewayConfigs (reconcile_refresh m)))"
  let ?m9 = "removeUnusedEgressRules e ?m8"
  obtain t1 where t1: "calls ?m8 = calls m @ t1" "list_all (\<lambda>c. \<not> isMapDelete c) t1"
    using calls_before_removal [of m e] by (auto simp: calls_extend_def)
  obtain t2 where t2: "calls ?m9 = calls ?m8 @ t2" "list_all (\<lambda>c. \<not> isMapUpdate c) t2"
    using calls_of_removal [of ?m8 e] by (auto simp: calls_extend_def)
  have c: "calls (reconcileLocked e m) = calls m @ t1 @ t2"
    by (simp add: reconcileLocked_synchronized [OF True] t1 t2)
  then have "calls_since m (reconcileLocked e m) = t1 @ t2"
    by (simp add: calls_since_def)
  then show ?thesis
    using c sorted_wrt_updates_deletes [OF t1(2) t2(2)] by simp
qed

theorem reconcileLocked_updates_before_deletes_witness:
  "calls_since (scenario False [cidr_1_2_3_0_24] [] \<lparr>policyMap := [(key_E cidr_1_2_0_0_16, val_G)]\<rparr>)
     (reconcileLocked env_ok
        (scenario False [cidr_1_2_3_0_24] [] \<lparr>policyMap := [(key_E cidr_1_2_0_0_16, val_G)]\<rparr>))
   = [RuleList, RouteList, MapIterate, MapUpdate (key_E cidr_1_2_3_0_24) val_G,
      MapIterate, MapDelete (key_E cidr_1_2_0_0_16)] \<and>
   sorted_wrt (\<lambda>c c'. \<not> (isMapDelete c \<and> isMapUpdate c'))
     [RuleList, RouteList, MapIterate, MapUpdate (key_E cidr_1_2_3_0_24) val_G,
      MapIterate, MapDelete (key_E cidr_1_2_0_0_16)]"
proof -
  let ?m = "scenario False [cidr_1_2_3_0_24] [] \<lparr>policyMap := [(key_E cidr_1_2_0_0_16, val_G)]\<rparr>"
  have eq: "calls_since ?m (reconcileLocked env_ok ?m)
    = [RuleList, RouteList, MapIterate, MapUpdate (key_E cidr_1_2_3_0_24) val_G,
      MapIterate, MapDelete (key_E cidr_1_2_0_0_16)]"
    by code_simp
  show ?thesis
    using reconcileLocked_updates_before_deletes [of env_ok ?m]
    by (simp only: eq simp_thms)
qed

text \<open>
  Claim C5. After \<open>updatePoliciesBySourceIP\<close>, the slice under any IP holds exactly the
  policies of \<open>policyConfigs\<close> (as pointers) that have a matched endpoint with that IP
  among its IPs, and no key has the empty slice.
\<close>

theorem updatePoliciesBySourceIP_exact:
  "set (bySourceIP (updatePoliciesBySourceIP m) ip) =
     {a \<in> snd ` set (policyConfigs (updatePoliciesBySourceIP m)).
        \<exists>ep \<in> set (matchedEndpoints (policyStore (updatePoliciesBySourceIP m) a)).
          ip \<in> set (ips ep)} \<and>
   policyConfigsBySourceIP (updatePoliciesBySourceIP m) ip \<noteq> Some []"
  using updatePoliciesBySourceIP_current [of m] updatePoliciesBySourceIP_no_empty [of m]
  by (simp add: index_current_def no_empty_slice_def)

theorem updatePoliciesBySourceIP_exact_witness:
  "bySourceIP (updatePoliciesBySourceIP
      (updatePoliciesMatchedEndpointIDs (scenario False [cidr_1_2_3_0_24] []))) 0x0A000005 = [0] \<and>
   {a \<in> snd ` set (policyConfigs (updatePoliciesBySourceIP
          (updatePoliciesMatchedEndpointIDs (scenario False [cidr_1_2_3_0_24] [])))).
        \<exists>ep \<in> set (matchedEndpoints
                 (policyStore (updatePoliciesBySourceIP
                    (updatePoliciesMatchedEndpointIDs (scenario False [cidr_1_2_3_0_24] []))) a)).
          0x0A000005 \<in> set (ips ep)} = {0}"
proof -
  let ?m = "updatePoliciesMatchedEndpointIDs (scenario False [cidr_1_2_3_0_24] [])"
  have 1: "bySourceIP (updatePoliciesBySourceIP ?m) 0x0A000005 = [0]" by code_simp
  show ?thesis
    using updatePoliciesBySourceIP_exact [of ?m "0x0A000005"]
    by (simp only: 1 simp_thms list.set)
qed

section \<open>Reconciliation with route installation switched off\<close>











section \<open>The content of the policy map after a run\<close>

text \<open>
  Claim C1 says that after any run of \<open>reconcileLocked\<close> with synchronized caches and
  successful writes the policy map holds exactly the entries of P1. It cannot when two of
  these entries have one key and different values, and which of them the map then holds
  depends on what it held before. The policy below lists 1.2.3.0/24 both as destination
  and as excluded CIDR. The first run leaves the excluded entry in the map; the second run
  starts from there, writes the gateway entry over it and, comparing with its snapshot,
  finds the excluded entry already present: the map ends with the gateway of the policy
  where P1 asks for 0.0.0.1.
\<close>

theorem reconcileLocked_policy_map_counterexample:
  "reachable (reconcileLocked env_ok (scenario False [cidr_1_2_3_0_24] [cidr_1_2_3_0_24])) \<and>
   cacheStatus (reconcileLocked env_ok (scenario False [cidr_1_2_3_0_24] [cidr_1_2_3_0_24])) \<and>
   writes_succeed env_ok \<and>
   (key_E cidr_1_2_3_0_24, val_excluded) \<in> set (P1_entries (reconcileLocked env_ok
      (reconcileLocked env_ok (scenario False [cidr_1_2_3_0_24] [cidr_1_2_3_0_24])))) \<and>
   policyMap (reconcileLocked env_ok
      (reconcileLocked env_ok (scenario False [cidr_1_2_3_0_24] [cidr_1_2_3_0_24])))
     = [(key_E cidr_1_2_3_0_24, val_G)] \<and>
   val_G \<noteq> val_excluded"
proof -
  let ?m = "reconcileLocked env_ok (scenario False [cidr_1_2_3_0_24] [cidr_1_2_3_0_24])"
  have 0: "reachable ?m" by (intro reachable.reconcile scenario_reachable)
  have 1: "cacheStatus ?m" by code_simp
  have 2: "(key_E cidr_1_2_3_0_24, val_excluded) \<in> set (P1_entries (reconcileLocked env_ok ?m))"
    by code_simp
  have 3: "policyMap (reconcileLocked env_ok ?m) = [(key_E cidr_1_2_3_0_24, val_G)]"
    by code_simp
  have 4: "val_G \<noteq> val_excluded" by (simp add: val_G_def val_excluded_def)
  show ?thesis using 0 1 2 3 4 writes_succeed_env_ok by simp
qed

text \<open>
  Claim C1, amended. In every state the manager reaches, with the caches synchronized and
  every write to the policy map succeeding, after \<open>reconcileLocked\<close>:
  the map holds each key once; every entry of the map is an entry of P1, that is
  (IP, CIDR) to (egress IP, gateway IP) for a policy, a matched endpoint, an IP of it and
  a destination or excluded CIDR, with 0.0.0.1 as gateway on an excluded CIDR, so there is
  no other entry; every key of P1 is in the map; and an entry of P1 is in the map
  whenever P1 has no other value under its key. Only when P1 has two values under one
  key does the map hold just one of them; when no key has two, the map is exactly P1.
\<close>

theorem reconcileLocked_policy_map:
  assumes "reachable m"
    and "cacheStatus m"
    and "writes_succeed e"
  shows "distinct (map fst (policyMap (reconcileLocked e m))) \<and>
         set (policyMap (reconcileLocked e m)) \<subseteq> set (P1_entries (reconcileLocked e m)) \<and>
         fst ` set (P1_entries (reconcileLocked e m)) \<subseteq> fst ` set (policyMap (reconcileLocked e m)) \<and>
         (\<forall>(k, v) \<in> set (P1_entries (reconcileLocked e m)).
            (\<forall>v'. (k, v') \<in> set (P1_entries (reconcileLocked e m)) \<longrightarrow> v' = v) \<longrightarrow>
            (k, v) \<in> set (policyMap (reconcileLocked e m))) \<and>
         (conflict_free (P1_entries (reconcileLocked e m)) \<longrightarrow>
            set (policyMap (reconcileLocked e m)) = set (P1_entries (reconcileLocked e m)))"
proof -
  define M where "M = set (policyMap (reconcileLocked e m))"
  define P where "P = set (P1_entries (reconcileLocked e m))"
  have "index_fresh m" and "distinct (map fst (policyMap m))"
    using reachable_manager_ok [OF assms(1)] by (simp_all add: manager_ok_def)
  then have sub: "M \<subseteq> P" and keys: "fst ` P \<subseteq> fst ` M"
    and d: "distinct (map fst (policyMap (reconcileLocked e m)))"
    unfolding M_def P_def
    using reconcileLocked_result(1,2,3) [OF assms(2) assms(3)] by simp_all
  have sole: "(k, v) \<in> M" if kv: "(k, v) \<in> P" and o: "\<forall>v'. (k, v') \<in> P \<longrightarrow> v' = v" for k v
  proof -
    have "k \<in> fst ` M" using kv keys by force
    then obtain v' where v': "(k, v') \<in> M" by auto
    then have "(k, v') \<in> P" using sub by auto
    then have "v' = v" using o by simp
    then show ?thesis using v' by simp
  qed
  have "M = P" if cf: "conflict_free (P1_entries (reconcileLocked e m))"
  proof -
    have "(k, v) \<in> M" if kv: "(k, v) \<in> P" for k v
    proof (rule sole [OF kv])
      show "\<forall>v'. (k, v') \<in> P \<longrightarrow> v' = v"
        using cf kv unfolding conflict_free_def P_def by blast
    qed
    then show ?thesis using sub by auto
  qed
  then show ?thesis
    using d sub keys sole unfolding M_def P_def by blast
qed

theorem reconcileLocked_policy_map_witness:
  "reachable (scenario False [cidr_1_2_0_0_16] [cidr_1_2_3_0_24]) \<and>
   cacheStatus (scenario False [cidr_1_2_0_0_16] [cidr_1_2_3_0_24]) \<and>
   writes_succeed env_ok \<and>
   conflict_free (P1_entries
     (reconcileLocked env_ok (scenario False [cidr_1_2_0_0_16] [cidr_1_2_3_0_24]))) \<and>
   set (policyMap (reconcileLocked env_ok (scenario False [cidr_1_2_0_0_16] [cidr_1_2_3_0_24])))
     = {(key_E cidr_1_2_0_0_16, val_G), (key_E cidr_1_2_3_0_24, val_excluded)}"
proof -
  let ?m = "scenario False [cidr_1_2_0_0_16] [cidr_1_2_3_0_24]"
  have 1: "cacheStatus ?m" by code_simp
  have P: "P1_entries (reconcileLocked env_ok ?m)
             = [(key_E cidr_1_2_0_0_16, val_G), (key_E cidr_1_2_3_0_24, val_excluded)]"
    by code_simp
  have 5: "conflict_free (P1_entries (reconcileLocked env_ok ?m))" by code_simp
  have "set (policyMap (reconcileLocked env_ok ?m)) = set (P1_entries (reconcileLocked env_ok ?m))"
    using reconcileLocked_policy_map [OF scenario_reachable 1 writes_succeed_env_ok] 5
    by blast
  then show ?thesis
    using scenario_reachable [of False "[cidr_1_2_0_0_16]" "[cidr_1_2_3_0_24]"]
      1 writes_succeed_env_ok 5
    by (simp add: P)
qed

section \<open>Two runs in a row\<close>

text \<open>
  Claim C3 says that after one run with successful writes a second run on the same caches
  issues no \<open>Update\<close> and no \<open>Delete\<close>. With the policy that lists 1.2.3.0/24 both as
  destination and as excluded CIDR the second run issues an \<open>Update\<close>, and so does every
  later run.
\<close>

theorem reconcileLocked_twice_counterexample:
  "reachable (scenario False [cidr_1_2_3_0_24] [cidr_1_2_3_0_24]) \<and>
   cacheStatus (scenario False [cidr_1_2_3_0_24] [cidr_1_2_3_0_24]) \<and>
   writes_succeed env_ok \<and>
   filter isMapWrite (calls_since
     (reconcileLocked env_ok (scenario False [cidr_1_2_3_0_24] [cidr_1_2_3_0_24]))
     (reconcileLocked env_ok
        (reconcileLocked env_ok (scenario False [cidr_1_2_3_0_24] [cidr_1_2_3_0_24]))))
   = [MapUpdate (key_E cidr_1_2_3_0_24) val_G]"
proof -
  let ?m = "scenario False [cidr_1_2_3_0_24] [cidr_1_2_3_0_24]"
  have 1: "cacheStatus ?m" by code_simp
  have 2: "filter isMapWrite (calls_since (reconcileLocked env_ok ?m)
             (reconcileLocked env_ok (reconcileLocked env_ok ?m)))
           = [MapUpdate (key_E cidr_1_2_3_0_24) val_G]"
    by code_simp
  show ?thesis
    using 1 2 writes_succeed_env_ok scenario_reachable [of False "[cidr_1_2_3_0_24]" "[cidr_1_2_3_0_24]"]
    by simp
qed

text \<open>
  Claim C3, amended. In every state the manager reaches, if one run of \<open>reconcileLocked\<close>
  completes with every write to the policy map succeeding, then a second run on the
  manager the first run left, in whatever environment, issues no \<open>Delete\<close> on the policy
  map, and an \<open>Update\<close> only of an entry of P1 under whose key P1 has another value too.
  So when no two entries of P1 have one key and different values, the second run issues
  no \<open>Update\<close> and no \<open>Delete\<close>.
\<close>

theorem reconcileLocked_twice:
  assumes "reachable m"
    and "writes_succeed e"
  shows "calls (reconcileLocked e' (reconcileLocked e m)) =
           calls (reconcileLocked e m) @
           calls_since (reconcileLocked e m) (reconcileLocked e' (reconcileLocked e m)) \<and>
         filter isMapDelete
           (calls_since (reconcileLocked e m) (reconcileLocked e' (reconcileLocked e m))) = [] \<and>
         (\<forall>k v. MapUpdate k v \<in>
                  set (calls_since (reconcileLocked e m) (reconcileLocked e' (reconcileLocked e m))) \<longrightarrow>
            (k, v) \<in> set (P1_entries (reconcileLocked e m)) \<and>
            (\<exists>v'. v' \<noteq> v \<and> (k, v') \<in> set (P1_entries (reconcileLocked e m)))) \<and>
         (conflict_free (P1_entries (reconcileLocked e m)) \<longrightarrow>
            filter isMapWrite
              (calls_since (reconcileLocked e m) (reconcileLocked e' (reconcileLocked e m))) = [])"
proof -
  define m1 where "m1 = reconcileLocked e m"
  define t where "t = calls_since m1 (reconcileLocked e' m1)"
  have ext: "calls (reconcileLocked e' m1) = calls m1 @ t \<and> list_all (rewrite_of_conflict m1) t"
  proof (cases "cacheStatus m")
    case False
    then have "m1 = m" by (simp add: m1_def reconcileLocked_def)
    then have "reconcileLocked e' m1 = m1" using False by (simp add: reconcileLocked_def)
    then show ?thesis by (simp add: t_def calls_since_def)
  next
    case True
    have "index_fresh m" and "distinct (map fst (policyMap m))"
      using reachable_manager_ok [OF assms(1)] by (simp_all add: manager_ok_def)
    then have "calls_extend (rewrite_of_conflict m1) m1 (reconcileLocked e' m1)"
      unfolding m1_def
      using reconcileLocked_result [OF True assms(2)]
      by (intro reconcileLocked_settled)
    then show ?thesis unfolding t_def by (auto dest: calls_extend_since)
  qed
  then have all: "\<forall>c \<in> set t. rewrite_of_conflict m1 c" by (simp add: list_all_iff)
  have del: "filter isMapDelete t = []"
    using all by (auto simp: filter_empty_conv isMapDelete_def rewrite_of_conflict_def
        split: call.splits)
  have upd: "(k, v) \<in> set (P1_entries m1) \<and> (\<exists>v'. v' \<noteq> v \<and> (k, v') \<in> set (P1_entries m1))"
    if "MapUpdate k v \<in> set t" for k v
    using all that by (force simp: rewrite_of_conflict_def)
  have none: "filter isMapWrite t = []" if cf: "conflict_free (P1_entries m1)"
  proof -
    have "\<not> isMapUpdate c" if c: "c \<in> set t" for c
    proof
      assume "isMapUpdate c"
      then obtain k v where "c = MapUpdate k v" by (cases c) (auto simp: isMapUpdate_def)
      with c upd obtain v' where "(k, v) \<in> set (P1_entries m1)" "v' \<noteq> v"
        "(k, v') \<in> set (P1_entries m1)" by blast
      with cf show False unfolding conflict_free_def by blast
    qed
    then show ?thesis using del by (auto simp: filter_empty_conv isMapWrite_def)
  qed
  show ?thesis
    using ext del upd none unfolding t_def m1_def by blast
qed

theorem reconcileLocked_twice_witness:
  "reachable (scenario True [cidr_1_2_0_0_16] [cidr_1_2_3_0_24]) \<and>
   writes_succeed env_ok \<and>
   conflict_free (P1_entries
     (reconcileLocked env_ok (scenario True [cidr_1_2_0_0_16] [cidr_1_2_3_0_24]))) \<and>
   filter isMapWrite (calls_since
     (reconcileLocked env_ok (scenario True [cidr_1_2_0_0_16] [cidr_1_2_3_0_24]))
     (reconcileLocked env_ok
        (reconcileLocked env_ok (scenario True [cidr_1_2_0_0_16] [cidr_1_2_3_0_24])))) = [] \<and>
   filter isMapWrite (calls_since (scenario True [cidr_1_2_0_0_16] [cidr_1_2_3_0_24])
     (reconcileLocked env_ok (scenario True [cidr_1_2_0_0_16] [cidr_1_2_3_0_24])))
     = [MapUpdate (key_E cidr_1_2_0_0_16) val_G, MapUpdate (key_E cidr_1_2_3_0_24) val_excluded] \<and>
   reachable (scenario False [cidr_1_2_3_0_24] [cidr_1_2_3_0_24]) \<and>
   MapUpdate (key_E cidr_1_2_3_0_24) val_G \<in> set (calls_since
     (reconcileLocked env_ok (scenario False [cidr_1_2_3_0_24] [cidr_1_2_3_0_24]))
     (reconcileLocked env_ok
        (reconcileLocked env_ok (scenario False [cidr_1_2_3_0_24] [cidr_1_2_3_0_24])))) \<and>
   (key_E cidr_1_2_3_0_24, val_G) \<in> set (P1_entries
     (reconcileLocked env_ok (scenario False [cidr_1_2_3_0_24] [cidr_1_2_3_0_24]))) \<and>
   (\<exists>v'. v' \<noteq> val_G \<and> (key_E cidr_1_2_3_0_24, v') \<in> set (P1_entries
     (reconcileLocked env_ok (scenario False [cidr_1_2_3_0_24] [cidr_1_2_3_0_24]))))"
proof -
  let ?m = "scenario True [cidr_1_2_0_0_16] [cidr_1_2_3_0_24]"
  let ?c = "scenario False [cidr_1_2_3_0_24] [cidr_1_2_3_0_24]"
  have 5: "conflict_free (P1_entries (reconcileLocked env_ok ?m))" by code_simp
  have first: "filter isMapWrite (calls_since ?m (reconcileLocked env_ok ?m))
     = [MapUpdate (key_E cidr_1_2_0_0_16) val_G, MapUpdate (key_E cidr_1_2_3_0_24) val_excluded]"
    by code_simp
  have second: "filter isMapWrite (calls_since (reconcileLocked env_ok ?m)
     (reconcileLocked env_ok (reconcileLocked env_ok ?m))) = []"
    using reconcileLocked_twice [OF scenario_reachable [of True "[cidr_1_2_0_0_16]"
          "[cidr_1_2_3_0_24]"] writes_succeed_env_ok, where e' = env_ok] 5
    by blast
  have u: "MapUpdate (key_E cidr_1_2_3_0_24) val_G \<in> set (calls_since
     (reconcileLocked env_ok ?c) (reconcileLocked env_ok (reconcileLocked env_ok ?c)))"
    by code_simp
  have conflict: "(key_E cidr_1_2_3_0_24, val_G) \<in> set (P1_entries (reconcileLocked env_ok ?c)) \<and>
     (\<exists>v'. v' \<noteq> val_G \<and>
        (key_E cidr_1_2_3_0_24, v') \<in> set (P1_entries (reconcileLocked env_ok ?c)))"
    using reconcileLocked_twice [OF scenario_reachable [of False "[cidr_1_2_3_0_24]"
          "[cidr_1_2_3_0_24]"] writes_succeed_env_ok, where e' = env_ok] u
    by blast
  show ?thesis
    using scenario_reachable [of True "[cidr_1_2_0_0_16]" "[cidr_1_2_3_0_24]"]
      scenario_reachable [of False "[cidr_1_2_3_0_24]" "[cidr_1_2_3_0_24]"]
      writes_succeed_env_ok 5 first second u conflict
    by simp
qed

end
